theory Spec2Isabelle
  imports Main
begin

section \<open>Knuth's elevator simulation: the data model\<close>

text \<open>
  The source is a single-threaded discrete-event simulation (TAOCP 2.2.5). Floors, times,
  durations and resume points are C++ \<^verbatim>\<open>int\<close>s; they are modelled as unbounded \<^typ>\<open>int\<close>
  (the simulation only adds small positive durations to the current time and compares
  times, and floors stay in 0..4, so no wrap-around takes part in what is proved here).
  The field names are the source's without the trailing underscore.
\<close>

datatype Direction = GoingUp | GoingDown | Neutral

text \<open>
  A \<^verbatim>\<open>std::shared_ptr<Task>\<close> is compared by object identity. The three elevator
  tasks are allocated once; every \<^verbatim>\<open>std::make_shared<UserTask>()\<close> yields a new object,
  numbered here in order of allocation.
\<close>

datatype task = ElevatorT | E5T | E9T | UserT nat

text \<open>Every \<^verbatim>\<open>assert\<close> of the source aborts the program; the model returns which one failed.\<close>

datatype error =
    EraseCount
  | WaitEmpty
  | PushFrontUnsorted
  | U2SameFloor
  | E1NotHome
  | E4NotBusy
  | E4EntererStep
  | E6Busy
  | E6NotHome
  | E6Pending
  | E7Busy
  | E7Top
  | E8Busy
  | E8Bottom
  | EBadStep
  | E5BadStep
  | E9BadStep

record NewUserInfo =
  info_in :: int
  info_out :: int
  giveuptime :: int
  intertime :: int

text \<open>
  The compile-time switches \<^verbatim>\<open>USE_KNUTH_DATA\<close> and \<^verbatim>\<open>EXERCISE_SIX\<close>, and the random
  generator \<^verbatim>\<open>rand_\<close> (its header \<^verbatim>\<open>xoshiro256ss.h\<close> is not part of the sources at hand):
  \<open>rand cfg k\<close> is the unsigned 64-bit value returned by the \<open>k\<close>-th call of \<^verbatim>\<open>rand_()\<close>.
  \<^verbatim>\<open>PRINT_STATISTICS\<close> only adds instrumentation and printing and is left out.
\<close>

record config =
  USE_KNUTH_DATA :: bool
  EXERCISE_SIX :: bool
  rand :: "nat \<Rightarrow> nat"

text \<open>
  \<^verbatim>\<open>struct ElevatorSimulation\<close> together with the task objects it points to: \<open>nextinst\<close> and
  \<open>nexttime\<close> are the fields of each \<^verbatim>\<open>Task\<close>, \<open>user_in\<close> and \<open>user_out\<close> those of each
  \<^verbatim>\<open>UserTask\<close>. The arrays \<^verbatim>\<open>callup_[5]\<close>, \<^verbatim>\<open>calldown_[5]\<close>, \<^verbatim>\<open>callcar_[5]\<close> and \<^verbatim>\<open>queue_[5]\<close>
  are functions of the index. \<open>allocated\<close> counts the \<^verbatim>\<open>UserTask\<close> objects made so far,
  \<open>rand_calls\<close> the calls of \<^verbatim>\<open>rand_()\<close>, and \<open>knuth_i\<close> is the \<^verbatim>\<open>static int i\<close> of
  \<^verbatim>\<open>createNewUser\<close>.
\<close>

record ElevatorSimulation =
  floor :: int
  d1 :: bool
  d2 :: bool
  d3 :: bool
  state :: Direction
  callup :: "int \<Rightarrow> bool"
  calldown :: "int \<Rightarrow> bool"
  callcar :: "int \<Rightarrow> bool"
  wait :: "task list"
  queue :: "int \<Rightarrow> nat list"
  elevator :: "nat list"
  nextinst :: "task \<Rightarrow> int"
  nexttime :: "task \<Rightarrow> int"
  user_in :: "nat \<Rightarrow> int"
  user_out :: "nat \<Rightarrow> int"
  allocated :: nat
  rand_calls :: nat
  knuth_i :: nat

definition durationBeforeRapidDoorClose :: int where "durationBeforeRapidDoorClose = 25"
definition durationBeforeInactivity :: int where "durationBeforeInactivity = 300"
definition durationBeforeDoorClose :: int where "durationBeforeDoorClose = 76"
definition durationOfDoorOpen :: int where "durationOfDoorOpen = 20"
definition durationOfLeaving :: int where "durationOfLeaving = 25"
definition durationOfEntering :: int where "durationOfEntering = 25"
definition delayAfterDoorFlutter :: int where "delayAfterDoorFlutter = 40"
definition durationOfDoorClose :: int where "durationOfDoorClose = 20"
definition durationOfUpwardAcceleration :: int where "durationOfUpwardAcceleration = 15"
definition durationOfDownwardAcceleration :: int where "durationOfDownwardAcceleration = 15"
definition durationOfDoorOpenFromDecisionSubroutine :: int where
  "durationOfDoorOpenFromDecisionSubroutine = 20"
definition delayBeforeHoming :: int where "delayBeforeHoming = 20"
definition durationOfUpwardTravel :: int where "durationOfUpwardTravel = 51"
definition durationOfUpwardDeceleration :: int where "durationOfUpwardDeceleration = 14"
definition durationOfDownwardTravel :: int where "durationOfDownwardTravel = 61"
definition durationOfDownwardDeceleration :: int where "durationOfDownwardDeceleration = 23"

text \<open>Sequencing of steps that may abort.\<close>

definition and_then :: "error + 'a \<Rightarrow> ('a \<Rightarrow> error + 'b) \<Rightarrow> error + 'b" where
  "and_then r f = (case r of Inl e \<Rightarrow> Inl e | Inr x \<Rightarrow> f x)"

section \<open>The event scheduler\<close>

text \<open>
  \<^verbatim>\<open>std_erase\<close>: asserts that the value occurs at most once, then erases its first
  occurrence if there is one.
\<close>

definition std_erase :: "'a list \<Rightarrow> 'a \<Rightarrow> error + 'a list" where
  "std_erase ctr v = (if count_list ctr v \<le> 1 then Inr (remove1 v ctr) else Inl EraseCount)"

text \<open>
  \<^verbatim>\<open>std::stable_sort(wait_.begin(), wait_.end(), Task::ByNextTime())\<close>: a stable sort by
  \<open>nexttime\<close>; \<^const>\<open>sort_key\<close> is the library's stable insertion sort. \<^verbatim>\<open>std::is_sorted\<close>
  with the same comparator holds when no element is smaller than its predecessor.
\<close>

definition stable_sort :: "(task \<Rightarrow> int) \<Rightarrow> task list \<Rightarrow> task list" where
  "stable_sort tm ts = sort_key tm ts"

fun is_sorted :: "(task \<Rightarrow> int) \<Rightarrow> task list \<Rightarrow> bool" where
  "is_sorted tm (p # q # ts) = (\<not> tm q < tm p \<and> is_sorted tm (q # ts))"
| "is_sorted tm ts = True"

definition schedule :: "task \<Rightarrow> int \<Rightarrow> int \<Rightarrow> ElevatorSimulation \<Rightarrow> error + ElevatorSimulation" where
  "schedule t step when s =
     (let s1 = s\<lparr>nextinst := (nextinst s)(t := step), nexttime := (nexttime s)(t := when)\<rparr>
      in and_then (std_erase (wait s1) t) (\<lambda>w.
           Inr (s1\<lparr>wait := stable_sort (nexttime s1) (w @ [t])\<rparr>)))"

definition schedule_immediately ::
    "task \<Rightarrow> int \<Rightarrow> int \<Rightarrow> ElevatorSimulation \<Rightarrow> error + ElevatorSimulation" where
  "schedule_immediately t step when s =
     (let s1 = s\<lparr>nextinst := (nextinst s)(t := step), nexttime := (nexttime s)(t := when)\<rparr>
      in and_then (std_erase (wait s1) t) (\<lambda>w.
           if is_sorted (nexttime s1) (t # w) then Inr (s1\<lparr>wait := t # w\<rparr>)
           else Inl PushFrontUnsorted))"

definition cancel :: "task \<Rightarrow> ElevatorSimulation \<Rightarrow> error + ElevatorSimulation" where
  "cancel t s = and_then (std_erase (wait s) t) (\<lambda>w. Inr (s\<lparr>wait := w\<rparr>))"

section \<open>The decision subroutine\<close>

definition floors :: "int list" where
  "floors = [0, 1, 2, 3, 4]"

definition anycall :: "ElevatorSimulation \<Rightarrow> int \<Rightarrow> bool" where
  "anycall s j = (callup s j \<or> calldown s j \<or> callcar s j)"

definition decision :: "int \<Rightarrow> bool \<Rightarrow> ElevatorSimulation \<Rightarrow> error + ElevatorSimulation" where
  "decision now fromE6 s =
     (if state s \<noteq> Neutral then Inr s
      else if nextinst s ElevatorT = 1 \<and> (callup s 2 \<or> calldown s 2 \<or> callcar s 2)
        then schedule ElevatorT 3 (now + durationOfDoorOpenFromDecisionSubroutine) s
      else
        let jj = (case find (\<lambda>j. j \<noteq> floor s \<and> (callup s j \<or> calldown s j \<or> callcar s j)) floors of
                    Some j \<Rightarrow> j
                  | None \<Rightarrow> if fromE6 then 2 else - 1)
        in if jj \<noteq> - 1 then
             let s1 = s\<lparr>state := (if jj < floor s then GoingDown
                                  else if jj > floor s then GoingUp else Neutral)\<rparr>
             in if nextinst s1 ElevatorT = 1 \<and> jj \<noteq> 2
                then schedule ElevatorT 6 (now + delayBeforeHoming) s1
                else Inr s1
           else Inr s)"

section \<open>The arrival source\<close>

definition knuth_data :: "NewUserInfo list" where
  "knuth_data =
    [\<lparr>info_in = 0, info_out = 2, giveuptime = 152 - 0, intertime = 38 - 0\<rparr>,
     \<lparr>info_in = 4, info_out = 1, giveuptime = 36000, intertime = 136 - 38\<rparr>,
     \<lparr>info_in = 2, info_out = 1, giveuptime = 36000, intertime = 141 - 136\<rparr>,
     \<lparr>info_in = 2, info_out = 1, giveuptime = 36000, intertime = 291 - 141\<rparr>,
     \<lparr>info_in = 3, info_out = 1, giveuptime = 36000, intertime = 364 - 291\<rparr>,
     \<lparr>info_in = 2, info_out = 1, giveuptime = 540 - 364, intertime = 602 - 364\<rparr>,
     \<lparr>info_in = 1, info_out = 2, giveuptime = 36000, intertime = 827 - 602\<rparr>,
     \<lparr>info_in = 1, info_out = 0, giveuptime = 36000, intertime = 876 - 827\<rparr>,
     \<lparr>info_in = 1, info_out = 3, giveuptime = 36000, intertime = 1048 - 876\<rparr>,
     \<lparr>info_in = 0, info_out = 4, giveuptime = 36000, intertime = 4384 - 1048\<rparr>,
     \<lparr>info_in = 2, info_out = 3, giveuptime = 36000, intertime = 4845 - 4384\<rparr>]"

text \<open>
  \<^verbatim>\<open>random_between(lo, hi)\<close> is \<^verbatim>\<open>lo + (rand_() % (1 + hi - lo))\<close>, computed in unsigned
  64-bit arithmetic; \<open>k\<close> is the number of the call of \<^verbatim>\<open>rand_()\<close>.
\<close>

definition random_between :: "config \<Rightarrow> nat \<Rightarrow> int \<Rightarrow> int \<Rightarrow> int" where
  "random_between cfg k lo hi = lo + int (rand cfg k mod nat (1 + hi - lo))"

definition createNewUser ::
    "config \<Rightarrow> ElevatorSimulation \<Rightarrow> NewUserInfo \<times> ElevatorSimulation" where
  "createNewUser cfg s =
     (if USE_KNUTH_DATA cfg \<and> knuth_i s < 11
      then (knuth_data ! knuth_i s, s\<lparr>knuth_i := knuth_i s + 1\<rparr>)
      else
        let k = rand_calls s;
            i = random_between cfg k 0 4;
            out = (i + random_between cfg (k + 1) 1 4) mod 5;
            giveup = random_between cfg (k + 2) 300 1200;
            inter = random_between cfg (k + 3) 10 900
        in (\<lparr>info_in = i, info_out = out, giveuptime = giveup, intertime = inter\<rparr>,
            s\<lparr>rand_calls := k + 4\<rparr>))"

section \<open>The rider\<close>

definition elevator_is_available :: "config \<Rightarrow> ElevatorSimulation \<Rightarrow> int \<Rightarrow> int \<Rightarrow> bool" where
  "elevator_is_available cfg s i out =
     (if EXERCISE_SIX cfg
      then floor s = i \<and> state s \<noteq> (if out < i then GoingUp else GoingDown)
      else floor s = i)"

text \<open>U2: signal and wait (the three-way branch in the middle of \<^verbatim>\<open>case 1\<close>).\<close>

definition U2_signal ::
    "config \<Rightarrow> NewUserInfo \<Rightarrow> int \<Rightarrow> ElevatorSimulation \<Rightarrow> error + ElevatorSimulation" where
  "U2_signal cfg info now s2 =
     (if elevator_is_available cfg s2 (info_in info) (info_out info) \<and> nextinst s2 ElevatorT = 6
      then schedule_immediately ElevatorT 3 now s2
      else if elevator_is_available cfg s2 (info_in info) (info_out info) \<and> d3 s2
      then schedule_immediately ElevatorT 4 now (s2\<lparr>d3 := False, d1 := True\<rparr>)
      else
        let s3 = (if info_in info < info_out info
                  then s2\<lparr>callup := (callup s2)(info_in info := True)\<rparr>
                  else s2\<lparr>calldown := (calldown s2)(info_in info := True)\<rparr>)
        in if \<not> d2 s3 \<or> nextinst s3 ElevatorT = 1 then decision now False s3
           else Inr s3)"

text \<open>
  U1 to U3 (\<^verbatim>\<open>case 1\<close>): enter and prepare for successor, signal and wait, enter queue.
  \<open>fresh\<close> is the object made by \<^verbatim>\<open>std::make_shared<UserTask>()\<close>.
\<close>

definition U1 :: "config \<Rightarrow> nat \<Rightarrow> ElevatorSimulation \<Rightarrow> error + ElevatorSimulation" where
  "U1 cfg u s =
     (let now = nexttime s (UserT u);
          info = fst (createNewUser cfg s);
          s1 = snd (createNewUser cfg s);
          fresh = allocated s1
      in and_then (schedule (UserT fresh) 1 (now + intertime info) (s1\<lparr>allocated := fresh + 1\<rparr>))
        (\<lambda>s2.
           if info_in info = info_out info then Inl U2SameFloor
           else and_then (U2_signal cfg info now s2)
             (\<lambda>s4.
                schedule (UserT u) 4 (now + giveuptime info)
                  (s4\<lparr>user_in := (user_in s4)(u := info_in info),
                      user_out := (user_out s4)(u := info_out info),
                      queue := (queue s4)(info_in info := queue s4 (info_in info) @ [u])\<rparr>))))"

text \<open>U4: give up.\<close>

definition U4 :: "config \<Rightarrow> nat \<Rightarrow> ElevatorSimulation \<Rightarrow> error + ElevatorSimulation" where
  "U4 cfg u s =
     (if \<not> elevator_is_available cfg s (user_in s u) (user_out s u) \<or> \<not> d1 s
      then and_then (std_erase (queue s (user_in s u)) u) (\<lambda>q.
             Inr (s\<lparr>queue := (queue s)(user_in s u := q)\<rparr>))
      else Inr s)"

text \<open>U5: get in.\<close>

definition U5 :: "nat \<Rightarrow> ElevatorSimulation \<Rightarrow> error + ElevatorSimulation" where
  "U5 u s =
     (let now = nexttime s (UserT u)
      in and_then (std_erase (queue s (user_in s u)) u) (\<lambda>q.
           let s1 = s\<lparr>queue := (queue s)(user_in s u := q),
                      elevator := u # elevator s,
                      callcar := (callcar s)(user_out s u := True)\<rparr>
           in if state s1 = Neutral
              then schedule E5T 5 (now + durationBeforeRapidDoorClose)
                     (s1\<lparr>state := (if user_in s1 u < user_out s1 u then GoingUp else GoingDown)\<rparr>)
              else Inr s1))"

text \<open>U6: get out.\<close>

definition U6 :: "nat \<Rightarrow> ElevatorSimulation \<Rightarrow> error + ElevatorSimulation" where
  "U6 u s = and_then (std_erase (elevator s) u) (\<lambda>e. Inr (s\<lparr>elevator := e\<rparr>))"

text \<open>\<^verbatim>\<open>UserTask::resume\<close>: the \<^verbatim>\<open>switch\<close> has no default, any other resume point does nothing.\<close>

definition UserTask_resume ::
    "config \<Rightarrow> nat \<Rightarrow> ElevatorSimulation \<Rightarrow> error + ElevatorSimulation" where
  "UserTask_resume cfg u s =
     (if nextinst s (UserT u) = 1 then U1 cfg u s
      else if nextinst s (UserT u) = 4 then U4 cfg u s
      else if nextinst s (UserT u) = 5 then U5 u s
      else if nextinst s (UserT u) = 6 then U6 u s
      else Inr s)"

section \<open>The elevator\<close>

text \<open>
  The scan shared by E2, E7 (continued) and E8 (continued): the loop over \<open>j = 0..4\<close>
  sets a flag when some floor other than the current one has the call on the given side.
\<close>

definition passenger_wants_up :: "ElevatorSimulation \<Rightarrow> bool" where
  "passenger_wants_up s = list_ex (\<lambda>j. j \<noteq> floor s \<and> callcar s j \<and> j > floor s) floors"

definition passenger_wants_down :: "ElevatorSimulation \<Rightarrow> bool" where
  "passenger_wants_down s = list_ex (\<lambda>j. j \<noteq> floor s \<and> callcar s j \<and> \<not> j > floor s) floors"

definition waiter_wants_up :: "ElevatorSimulation \<Rightarrow> bool" where
  "waiter_wants_up s =
     list_ex (\<lambda>j. j \<noteq> floor s \<and> (callup s j \<or> calldown s j) \<and> j > floor s) floors"

definition waiter_wants_down :: "ElevatorSimulation \<Rightarrow> bool" where
  "waiter_wants_down s =
     list_ex (\<lambda>j. j \<noteq> floor s \<and> (callup s j \<or> calldown s j) \<and> \<not> j > floor s) floors"

text \<open>E1: wait for call.\<close>

definition E1 :: "ElevatorSimulation \<Rightarrow> error + ElevatorSimulation" where
  "E1 s = (if floor s = 2 then Inr s else Inl E1NotHome)"

text \<open>E3: open doors.\<close>

definition E3 :: "ElevatorSimulation \<Rightarrow> error + ElevatorSimulation" where
  "E3 s =
     (let now = nexttime s ElevatorT
      in and_then (schedule E9T 9 (now + durationBeforeInactivity) (s\<lparr>d1 := True, d2 := True\<rparr>))
           (\<lambda>s1. and_then (schedule E5T 5 (now + durationBeforeDoorClose) s1)
           (\<lambda>s2. schedule ElevatorT 4 (now + durationOfDoorOpen) s2)))"

text \<open>The new direction chosen by E2 (change of state?).\<close>

definition E2_state :: "ElevatorSimulation \<Rightarrow> Direction" where
  "E2_state s =
     (if state s = GoingUp \<and> \<not> (passenger_wants_up s \<or> waiter_wants_up s)
      then (if passenger_wants_down s then GoingDown else Neutral)
      else if state s = GoingDown \<and> \<not> (passenger_wants_down s \<or> waiter_wants_down s)
      then (if passenger_wants_up s then GoingUp else Neutral)
      else state s)"

text \<open>E2 ends in \<^verbatim>\<open>goto caseE3\<close>.\<close>

definition E2 :: "ElevatorSimulation \<Rightarrow> error + ElevatorSimulation" where
  "E2 s = E3 (s\<lparr>state := E2_state s\<rparr>)"

text \<open>E4: let people out, in.\<close>

definition leaver :: "ElevatorSimulation \<Rightarrow> nat option" where
  "leaver s = find (\<lambda>p. user_out s p = floor s) (elevator s)"

definition enterer :: "config \<Rightarrow> ElevatorSimulation \<Rightarrow> nat option" where
  "enterer cfg s =
     find (\<lambda>p. if EXERCISE_SIX cfg
               then state s = Neutral \<or> ((user_out s p > floor s) = (state s = GoingUp))
               else True)
          (queue s (floor s))"

definition E4 :: "config \<Rightarrow> ElevatorSimulation \<Rightarrow> error + ElevatorSimulation" where
  "E4 cfg s =
     (let now = nexttime s ElevatorT
      in if \<not> d1 s then Inl E4NotBusy
         else case leaver s of
           Some l \<Rightarrow>
             and_then (schedule_immediately (UserT l) 6 now s)
               (\<lambda>s1. schedule ElevatorT 4 (now + durationOfLeaving) s1)
         | None \<Rightarrow>
             (case enterer cfg s of
                Some e \<Rightarrow>
                  if nextinst s (UserT e) \<noteq> 4 then Inl E4EntererStep
                  else and_then (schedule_immediately (UserT e) 5 now s)
                         (\<lambda>s1. schedule ElevatorT 4 (now + durationOfEntering) s1)
              | None \<Rightarrow> Inr (s\<lparr>d1 := False, d3 := True\<rparr>)))"

text \<open>E6: prepare to move.\<close>

definition E6_clear :: "ElevatorSimulation \<Rightarrow> ElevatorSimulation" where
  "E6_clear s =
     (let s1 = s\<lparr>callcar := (callcar s)(floor s := False)\<rparr>;
          s2 = (if state s1 \<noteq> GoingDown then s1\<lparr>callup := (callup s1)(floor s1 := False)\<rparr>
                else s1)
      in if state s2 \<noteq> GoingUp then s2\<lparr>calldown := (calldown s2)(floor s2 := False)\<rparr>
         else s2)"

definition E6 :: "ElevatorSimulation \<Rightarrow> error + ElevatorSimulation" where
  "E6 s =
     (let now = nexttime s ElevatorT
      in if d1 s then Inl E6Busy
         else and_then (decision now True (E6_clear s)) (\<lambda>s1.
           if state s1 = Neutral then
             (if floor s1 \<noteq> 2 then Inl E6NotHome
              else if ElevatorT \<in> set (wait s1) then Inl E6Pending
              else schedule_immediately ElevatorT 1 now s1)
           else and_then (if d2 s1 then cancel E9T s1 else Inr s1) (\<lambda>s2.
             if state s2 = GoingUp
             then schedule ElevatorT 7 (now + durationOfUpwardAcceleration) s2
             else schedule ElevatorT 8 (now + durationOfDownwardAcceleration) s2)))"

text \<open>E7: go up a floor.\<close>

definition E7 :: "ElevatorSimulation \<Rightarrow> error + ElevatorSimulation" where
  "E7 s =
     (let now = nexttime s ElevatorT
      in if d1 s then Inl E7Busy
         else if \<not> floor s < 4 then Inl E7Top
         else schedule ElevatorT 71 (now + durationOfUpwardTravel) (s\<lparr>floor := floor s + 1\<rparr>))"

definition should_stop_here_up :: "ElevatorSimulation \<Rightarrow> bool" where
  "should_stop_here_up s =
     (callcar s (floor s) \<or> callup s (floor s) \<or>
      ((floor s = 2 \<or> calldown s (floor s)) \<and> \<not> (passenger_wants_up s \<or> waiter_wants_up s)))"

definition E71 :: "ElevatorSimulation \<Rightarrow> error + ElevatorSimulation" where
  "E71 s =
     (let now = nexttime s ElevatorT
      in if should_stop_here_up s
         then schedule ElevatorT 2 (now + durationOfUpwardDeceleration) s
         else schedule_immediately ElevatorT 7 now s)"

text \<open>E8: go down a floor.\<close>

definition E8 :: "ElevatorSimulation \<Rightarrow> error + ElevatorSimulation" where
  "E8 s =
     (let now = nexttime s ElevatorT
      in if d1 s then Inl E8Busy
         else if \<not> floor s > 0 then Inl E8Bottom
         else schedule ElevatorT 81 (now + durationOfDownwardTravel) (s\<lparr>floor := floor s - 1\<rparr>))"

definition should_stop_here_down :: "ElevatorSimulation \<Rightarrow> bool" where
  "should_stop_here_down s =
     (callcar s (floor s) \<or> calldown s (floor s) \<or>
      ((floor s = 2 \<or> callup s (floor s)) \<and> \<not> (passenger_wants_down s \<or> waiter_wants_down s)))"

definition E81 :: "ElevatorSimulation \<Rightarrow> error + ElevatorSimulation" where
  "E81 s =
     (let now = nexttime s ElevatorT
      in if should_stop_here_down s
         then schedule ElevatorT 2 (now + durationOfDownwardDeceleration) s
         else schedule_immediately ElevatorT 8 now s)"

definition ElevatorTask_resume ::
    "config \<Rightarrow> ElevatorSimulation \<Rightarrow> error + ElevatorSimulation" where
  "ElevatorTask_resume cfg s =
     (if nextinst s ElevatorT = 1 then E1 s
      else if nextinst s ElevatorT = 2 then E2 s
      else if nextinst s ElevatorT = 3 then E3 s
      else if nextinst s ElevatorT = 4 then E4 cfg s
      else if nextinst s ElevatorT = 6 then E6 s
      else if nextinst s ElevatorT = 7 then E7 s
      else if nextinst s ElevatorT = 71 then E71 s
      else if nextinst s ElevatorT = 8 then E8 s
      else if nextinst s ElevatorT = 81 then E81 s
      else Inl EBadStep)"

text \<open>E5: close doors.\<close>

definition E5Task_resume :: "ElevatorSimulation \<Rightarrow> error + ElevatorSimulation" where
  "E5Task_resume s =
     (let now = nexttime s E5T
      in if nextinst s E5T \<noteq> 5 then Inl E5BadStep
         else if d1 s then schedule E5T 5 (now + delayAfterDoorFlutter) s
         else schedule ElevatorT 6 (now + durationOfDoorClose) (s\<lparr>d3 := False\<rparr>))"

text \<open>E9: set inaction indicator.\<close>

definition E9Task_resume :: "ElevatorSimulation \<Rightarrow> error + ElevatorSimulation" where
  "E9Task_resume s =
     (let now = nexttime s E9T
      in if nextinst s E9T \<noteq> 9 then Inl E9BadStep
         else decision now False (s\<lparr>d2 := False\<rparr>))"

section \<open>The driver\<close>

fun resume :: "config \<Rightarrow> task \<Rightarrow> ElevatorSimulation \<Rightarrow> error + ElevatorSimulation" where
  "resume cfg ElevatorT s = ElevatorTask_resume cfg s"
| "resume cfg E5T s = E5Task_resume s"
| "resume cfg E9T s = E9Task_resume s"
| "resume cfg (UserT u) s = UserTask_resume cfg u s"

text \<open>
  One turn of the loop of \<^verbatim>\<open>runUntil\<close> past the deadline test: the front task is popped
  and resumed.
\<close>

definition step :: "config \<Rightarrow> ElevatorSimulation \<Rightarrow> error + ElevatorSimulation" where
  "step cfg s =
     (case wait s of
        [] \<Rightarrow> Inl WaitEmpty
      | t # ts \<Rightarrow> resume cfg t (s\<lparr>wait := ts\<rparr>))"

text \<open>
  The state built by the member initialisers, and the constructor, which schedules the
  first user at time zero. A new \<^verbatim>\<open>Task\<close> has \<^verbatim>\<open>nextinst_ = 1\<close> and \<^verbatim>\<open>nexttime_ = -1\<close>.
\<close>

definition members_init :: ElevatorSimulation where
  "members_init =
     \<lparr>floor = 2, d1 = False, d2 = False, d3 = False, state = Neutral,
      callup = (\<lambda>_. False), calldown = (\<lambda>_. False), callcar = (\<lambda>_. False),
      wait = [], queue = (\<lambda>_. []), elevator = [],
      nextinst = (\<lambda>_. 1), nexttime = (\<lambda>_. - 1),
      user_in = (\<lambda>_. 0), user_out = (\<lambda>_. 0),
      allocated = 0, rand_calls = 0, knuth_i = 0\<rparr>"

definition ElevatorSimulation_ctor :: "error + ElevatorSimulation" where
  "ElevatorSimulation_ctor =
     schedule (UserT (allocated members_init)) 1 0
       (members_init\<lparr>allocated := allocated members_init + 1\<rparr>)"

text \<open>
  The states a run can be in between two turns of the loop, whatever the deadline: the
  constructed simulation, and what a turn makes of such a state when no assertion fails.
\<close>

inductive reachable :: "config \<Rightarrow> ElevatorSimulation \<Rightarrow> bool" for cfg :: config where
  reach_init: "ElevatorSimulation_ctor = Inr s \<Longrightarrow> reachable cfg s"
| reach_step: "reachable cfg s \<Longrightarrow> step cfg s = Inr s' \<Longrightarrow> reachable cfg s'"

text \<open>\<open>n\<close> turns of the loop.\<close>

fun run_steps :: "config \<Rightarrow> nat \<Rightarrow> ElevatorSimulation \<Rightarrow> error + ElevatorSimulation" where
  "run_steps cfg 0 s = Inr s"
| "run_steps cfg (Suc n) s = and_then (step cfg s) (run_steps cfg n)"

text \<open>
  What \<^verbatim>\<open>printf("%04d %c %d %c %c %c %s\\n", ...)\<close> prints for a popped task: its time, the
  direction, the floor, the three flags and the label of the task (its family and resume
  point). The formatting itself is not modelled.
\<close>

record log_line =
  log_time :: int
  log_state :: Direction
  log_floor :: int
  log_d1 :: bool
  log_d2 :: bool
  log_d3 :: bool
  log_task :: task
  log_inst :: int

definition log_of :: "ElevatorSimulation \<Rightarrow> task \<Rightarrow> log_line" where
  "log_of s t =
     \<lparr>log_time = nexttime s t, log_state = state s, log_floor = floor s,
      log_d1 = d1 s, log_d2 = d2 s, log_d3 = d3 s, log_task = t, log_inst = nextinst s t\<rparr>"

text \<open>
  \<^verbatim>\<open>runUntil\<close>: the result is the final state or the failed assertion, with the lines
  printed; \<open>None\<close> stands for a loop that never ends.
\<close>

partial_function (option) runUntil ::
    "config \<Rightarrow> int \<Rightarrow> ElevatorSimulation \<Rightarrow> log_line list \<Rightarrow>
     ((error + ElevatorSimulation) \<times> log_line list) option" where
  "runUntil cfg deadline s out =
     (case wait s of
        [] \<Rightarrow> Some (Inl WaitEmpty, out)
      | t # ts \<Rightarrow>
          if nexttime s t \<ge> deadline then Some (Inr s, out)
          else (case step cfg s of
                  Inl e \<Rightarrow> Some (Inl e, out @ [log_of s t])
                | Inr s' \<Rightarrow> runUntil cfg deadline s' (out @ [log_of s t])))"

section \<open>The command line\<close>






section \<open>Definitions for the proofs\<close>

text \<open>
  What the scheduler operations leave behind when their assertions hold: \<open>sched\<close> for
  \<^const>\<open>schedule\<close>, \<open>simm\<close> for \<^const>\<open>schedule_immediately\<close>, \<open>canc\<close> for \<^const>\<open>cancel\<close>.
\<close>

definition enqueue :: "(task \<Rightarrow> int) \<Rightarrow> task \<Rightarrow> task list \<Rightarrow> task list" where
  "enqueue tm t w = sort_key tm (remove1 t w @ [t])"

definition sched :: "task \<Rightarrow> int \<Rightarrow> int \<Rightarrow> ElevatorSimulation \<Rightarrow> ElevatorSimulation" where
  "sched t i w s =
     s\<lparr>nextinst := (nextinst s)(t := i), nexttime := (nexttime s)(t := w),
       wait := enqueue ((nexttime s)(t := w)) t (wait s)\<rparr>"

definition simm :: "task \<Rightarrow> int \<Rightarrow> int \<Rightarrow> ElevatorSimulation \<Rightarrow> ElevatorSimulation" where
  "simm t i w s =
     s\<lparr>nextinst := (nextinst s)(t := i), nexttime := (nexttime s)(t := w),
       wait := t # remove1 t (wait s)\<rparr>"

definition canc :: "task \<Rightarrow> ElevatorSimulation \<Rightarrow> ElevatorSimulation" where
  "canc t s = s\<lparr>wait := remove1 t (wait s)\<rparr>"

text \<open>The constructed simulation.\<close>

definition sim_init :: ElevatorSimulation where
  "sim_init = sched (UserT 0) 1 0 (members_init\<lparr>allocated := 1\<rparr>)"

text \<open>\<open>ok r P\<close>: the computation \<open>r\<close> does not abort and its result satisfies \<open>P\<close>.\<close>

definition ok :: "error + 'a \<Rightarrow> ('a \<Rightarrow> bool) \<Rightarrow> bool" where
  "ok r P = (case r of Inl e \<Rightarrow> False | Inr x \<Rightarrow> P x)"

text \<open>No pending task fires before \<open>now\<close>.\<close>

definition after :: "int \<Rightarrow> ElevatorSimulation \<Rightarrow> bool" where
  "after now s = (\<forall>x\<in>set (wait s). now \<le> nexttime s x)"

text \<open>Some call is outstanding on a floor strictly above, or strictly below, the car.\<close>

definition call_above :: "ElevatorSimulation \<Rightarrow> bool" where
  "call_above s = list_ex (\<lambda>j. floor s < j \<and> anycall s j) floors"

definition call_below :: "ElevatorSimulation \<Rightarrow> bool" where
  "call_below s = list_ex (\<lambda>j. j < floor s \<and> anycall s j) floors"

text \<open>
  The invariant of the simulation, in five parts.
  \<^item> \<open>inv_wait\<close>: no task is pending twice, and the pending sequence is ordered by fire time.
  \<^item> \<open>inv_steps\<close>: the resume points of the three elevator tasks; the door-close task is
    pending only while the car is at its step E4.
  \<^item> \<open>inv_doors\<close>: the door flags against the car's resume point.
  \<^item> \<open>inv_floor\<close>: the floor is in range, and the car's direction is justified by a call on
    that side (or by the way home to floor 2) at the steps that rely on it.
  \<^item> \<open>inv_users\<close>: the rosters against the riders' resume points; a rider handed its step
    U5 is the very next task; some rider is always waiting to arrive.
\<close>

definition inv_wait :: "ElevatorSimulation \<Rightarrow> bool" where
  "inv_wait s = (distinct (wait s) \<and> sorted (map (nexttime s) (wait s)))"

definition inv_steps :: "ElevatorSimulation \<Rightarrow> bool" where
  "inv_steps s =
     (nextinst s ElevatorT \<in> {1, 2, 3, 4, 6, 7, 71, 8, 81} \<and>
      (E5T \<in> set (wait s) \<longrightarrow> nextinst s E5T = 5 \<and> nextinst s ElevatorT = 4) \<and>
      (E9T \<in> set (wait s) \<longrightarrow> nextinst s E9T = 9))"

definition inv_doors :: "ElevatorSimulation \<Rightarrow> bool" where
  "inv_doors s =
     ((nextinst s ElevatorT \<noteq> 4 \<longrightarrow> \<not> d1 s \<and> \<not> d3 s) \<and>
      \<not> (d1 s \<and> d3 s) \<and>
      (nextinst s ElevatorT = 4 \<and> ElevatorT \<in> set (wait s) \<longrightarrow> d1 s))"

definition inv_floor :: "ElevatorSimulation \<Rightarrow> bool" where
  "inv_floor s =
     (0 \<le> floor s \<and> floor s \<le> 4 \<and>
      (nextinst s ElevatorT = 1 \<longrightarrow> floor s = 2) \<and>
      (nextinst s ElevatorT \<in> {3, 4, 6} \<longrightarrow>
         (state s = GoingUp \<longrightarrow> call_above s) \<and> (state s = GoingDown \<longrightarrow> call_below s)) \<and>
      (nextinst s ElevatorT = 7 \<longrightarrow> call_above s \<or> floor s < 2) \<and>
      (nextinst s ElevatorT = 71 \<longrightarrow> anycall s (floor s) \<or> call_above s \<or> floor s \<le> 2) \<and>
      (nextinst s ElevatorT = 8 \<longrightarrow> call_below s \<or> 2 < floor s) \<and>
      (nextinst s ElevatorT = 81 \<longrightarrow> anycall s (floor s) \<or> call_below s \<or> 2 \<le> floor s))"

definition inv_users :: "ElevatorSimulation \<Rightarrow> bool" where
  "inv_users s =
     ((\<forall>f u. u \<in> set (queue s f) \<longrightarrow>
         0 \<le> f \<and> f \<le> 4 \<and> user_in s u = f \<and> 0 \<le> user_out s u \<and> user_out s u \<le> 4 \<and>
         user_out s u \<noteq> f \<and> u < allocated s \<and>
         (nextinst s (UserT u) = 4 \<or> nextinst s (UserT u) = 5 \<and> UserT u \<in> set (wait s))) \<and>
      (\<forall>f. distinct (queue s f)) \<and>
      distinct (elevator s) \<and>
      (\<forall>u\<in>set (elevator s). u < allocated s \<and>
         (nextinst s (UserT u) = 5 \<and> UserT u \<notin> set (wait s) \<or>
          nextinst s (UserT u) = 6 \<and> UserT u \<in> set (wait s))) \<and>
      (\<forall>u. UserT u \<in> set (wait s) \<longrightarrow>
         u < allocated s \<and>
         (nextinst s (UserT u) = 5 \<longrightarrow>
            hd (wait s) = UserT u \<and> u \<in> set (queue s (floor s)) \<and> nextinst s ElevatorT = 4)) \<and>
      (\<exists>u. UserT u \<in> set (wait s) \<and> nextinst s (UserT u) = 1))"

definition sim_inv :: "ElevatorSimulation \<Rightarrow> bool" where
  "sim_inv s = (inv_wait s \<and> inv_steps s \<and> inv_doors s \<and> inv_floor s \<and> inv_users s)"

text \<open>
  The state in which a popped task \<open>t\<close> that is not a rider is resumed: the invariant
  still holds, the task is not pending, nothing pending fires before it, and no rider has
  been handed its step U5.
\<close>

definition no_kicked :: "ElevatorSimulation \<Rightarrow> bool" where
  "no_kicked s = (\<forall>u. UserT u \<in> set (wait s) \<longrightarrow> nextinst s (UserT u) \<noteq> 5)"

definition running :: "task \<Rightarrow> ElevatorSimulation \<Rightarrow> bool" where
  "running t s =
     (sim_inv s \<and> t \<notin> set (wait s) \<and> after (nexttime s t) s \<and>
      (\<forall>u. UserT u \<in> set (wait s) \<longrightarrow> nextinst s (UserT u) \<noteq> 5))"

definition sys_task :: "task \<Rightarrow> bool" where
  "sys_task t = (case t of UserT u \<Rightarrow> False | _ \<Rightarrow> True)"

text \<open>The pieces of the decision subroutine: the target found by D3 and the direction of D4.\<close>

definition toward :: "int \<Rightarrow> int \<Rightarrow> Direction" where
  "toward f jj = (if jj < f then GoingDown else if jj > f then GoingUp else Neutral)"

definition D3_target :: "ElevatorSimulation \<Rightarrow> int option" where
  "D3_target s = find (\<lambda>j. j \<noteq> floor s \<and> (callup s j \<or> calldown s j \<or> callcar s j)) floors"

definition E6_dir :: "ElevatorSimulation \<Rightarrow> Direction" where
  "E6_dir s =
     (if state s \<noteq> Neutral then state s
      else case D3_target (E6_clear s) of
             Some j \<Rightarrow> toward (floor s) j
           | None \<Rightarrow> toward (floor s) 2)"

text \<open>Two states that agree on everything about the riders; a state with more calls.\<close>

definition same_users :: "ElevatorSimulation \<Rightarrow> ElevatorSimulation \<Rightarrow> bool" where
  "same_users s s' =
     (queue s' = queue s \<and> elevator s' = elevator s \<and> user_in s' = user_in s \<and>
      user_out s' = user_out s \<and> allocated s' = allocated s \<and>
      (\<forall>u. nextinst s' (UserT u) = nextinst s (UserT u) \<and>
           (UserT u \<in> set (wait s')) = (UserT u \<in> set (wait s))))"

definition more_calls :: "ElevatorSimulation \<Rightarrow> ElevatorSimulation \<Rightarrow> bool" where
  "more_calls s s' =
     (floor s' = floor s \<and> state s' = state s \<and> nextinst s' ElevatorT = nextinst s ElevatorT \<and>
      (\<forall>j. anycall s j \<longrightarrow> anycall s' j))"

text \<open>What \<^const>\<open>createNewUser\<close> always returns.\<close>

definition valid_info :: "NewUserInfo \<Rightarrow> bool" where
  "valid_info i =
     (0 \<le> info_in i \<and> info_in i \<le> 4 \<and> 0 \<le> info_out i \<and> info_out i \<le> 4 \<and>
      info_in i \<noteq> info_out i \<and> 0 \<le> giveuptime i \<and> 0 \<le> intertime i)"

text \<open>
  Two concrete runs. \<open>knuth_cfg\<close> replays Knuth's recorded arrivals. Under \<open>home_cfg\<close> the
  random generator always sends a rider from floor 2 to floor 3, 900 tenths of a second
  apart, so that the car comes home and goes idle in between. \<open>after_steps cfg n\<close> is the
  state after \<open>n\<close> turns of the loop.
\<close>

definition knuth_cfg :: config where
  "knuth_cfg = \<lparr>USE_KNUTH_DATA = True, EXERCISE_SIX = False, rand = (\<lambda>k. 0)\<rparr>"

definition home_cfg :: config where
  "home_cfg =
     \<lparr>USE_KNUTH_DATA = False, EXERCISE_SIX = False,
      rand = (\<lambda>k. if k mod 4 = 0 then 2 else if k mod 4 = 3 then 890 else 0)\<rparr>"

definition after_steps :: "config \<Rightarrow> nat \<Rightarrow> ElevatorSimulation" where
  "after_steps cfg n = (case run_steps cfg n sim_init of Inr s \<Rightarrow> s | Inl e \<Rightarrow> sim_init)"

text \<open>
  A pending sequence of three tasks with fire times 10, 20 and 30, to try the scheduler
  operations on.
\<close>

definition demo_wait :: ElevatorSimulation where
  "demo_wait =
     members_init\<lparr>wait := [UserT 0, E5T, E9T],
       nexttime := (nexttime members_init)(UserT 0 := 10, E5T := 20, E9T := 30)\<rparr>"

text \<open>
  The car at floor 2 going up, with the car button of floor 0 pressed.
\<close>

definition demo_passenger_below :: ElevatorSimulation where
  "demo_passenger_below =
     members_init\<lparr>state := GoingUp, callcar := (callcar members_init)(0 := True)\<rparr>"



section \<open>The invariant holds in every reachable state\<close>

subsection \<open>The scheduler primitives\<close>

lemmas durations =
  durationBeforeRapidDoorClose_def durationBeforeInactivity_def durationBeforeDoorClose_def
  durationOfDoorOpen_def durationOfLeaving_def durationOfEntering_def delayAfterDoorFlutter_def
  durationOfDoorClose_def durationOfUpwardAcceleration_def durationOfDownwardAcceleration_def
  durationOfDoorOpenFromDecisionSubroutine_def delayBeforeHoming_def durationOfUpwardTravel_def
  durationOfUpwardDeceleration_def durationOfDownwardTravel_def
  durationOfDownwardDeceleration_def

lemma and_then_Inr [simp]: "and_then (Inr x) f = f x"
  by (simp add: and_then_def)

lemma and_then_Inl [simp]: "and_then (Inl e) f = Inl e"
  by (simp add: and_then_def)

lemma count_list_distinct: "distinct xs \<Longrightarrow> count_list xs v \<le> 1"
proof (induction xs)
  case Nil
  then show ?case by simp
next
  case (Cons a xs)
  then show ?case by (cases "a = v") simp_all
qed

lemma std_erase_distinct: "distinct xs \<Longrightarrow> std_erase xs v = Inr (remove1 v xs)"
  using count_list_distinct [of xs v] by (simp add: std_erase_def)

lemma is_sorted_iff: "is_sorted tm ts = sorted (map tm ts)"
  by (induction tm ts rule: is_sorted.induct) (fastforce simp: not_less)+

lemma set_enqueue [simp]: "set (enqueue tm t w) = insert t (set w)"
proof -
  have "set (remove1 t w) \<union> {t} = insert t (set w)"
    by (induction w) auto
  then show ?thesis by (simp add: enqueue_def)
qed

lemma distinct_enqueue [simp]: "distinct w \<Longrightarrow> distinct (enqueue tm t w)"
  by (simp add: enqueue_def)

lemma sorted_enqueue [simp]: "sorted (map tm (enqueue tm t w))"
  by (simp add: enqueue_def)

lemma insort_key_front: "\<forall>z\<in>set zs. f a \<le> f z \<Longrightarrow> insort_key f a zs = a # zs"
  by (cases zs) auto

lemma enqueue_Cons:
  assumes "a \<noteq> t" "\<forall>x\<in>set w. tm a \<le> tm x" "tm a \<le> tm t"
  shows "enqueue tm t (a # w) = a # enqueue tm t w"
proof -
  have "\<forall>z\<in>set (sort_key tm (remove1 t w @ [t])). tm a \<le> tm z"
    using assms by (auto dest: notin_set_remove1)
  then show ?thesis
    using assms(1) by (simp add: enqueue_def insort_key_front)
qed

lemma schedule_eq:
  "distinct (wait s) \<Longrightarrow>
   schedule t i w s =
     Inr (s\<lparr>nextinst := (nextinst s)(t := i), nexttime := (nexttime s)(t := w),
           wait := enqueue ((nexttime s)(t := w)) t (wait s)\<rparr>)"
  by (simp add: schedule_def std_erase_distinct stable_sort_def enqueue_def)

lemma schedule_immediately_eq:
  "distinct (wait s) \<Longrightarrow> \<forall>x\<in>set (wait s). w \<le> nexttime s x \<Longrightarrow>
   sorted (map (nexttime s) (wait s)) \<Longrightarrow>
   schedule_immediately t i w s =
     Inr (s\<lparr>nextinst := (nextinst s)(t := i), nexttime := (nexttime s)(t := w),
           wait := t # remove1 t (wait s)\<rparr>)"
  by (auto simp: schedule_immediately_def std_erase_distinct is_sorted_iff sorted_map_remove1
        dest: notin_set_remove1)

lemma cancel_eq: "distinct (wait s) \<Longrightarrow> cancel t s = Inr (s\<lparr>wait := remove1 t (wait s)\<rparr>)"
  by (simp add: cancel_def std_erase_distinct)

subsection \<open>Results that do not abort; the invariant\<close>

lemma ok_Inr [simp]: "ok (Inr x) P = P x"
  by (simp add: ok_def)

lemma ok_Inl [simp]: "ok (Inl e) P = False"
  by (simp add: ok_def)

lemma ok_and_then [simp]: "ok (and_then r f) P = ok r (\<lambda>x. ok (f x) P)"
  by (cases r) simp_all

lemma ok_iff: "ok r P = (\<exists>x. r = Inr x \<and> P x)"
  by (cases r) simp_all

lemma ok_conj: "ok r P \<Longrightarrow> ok r Q \<Longrightarrow> ok r (\<lambda>x. P x \<and> Q x)"
  by (cases r) simp_all

lemma ok_mono: "ok r P \<Longrightarrow> (\<And>x. P x \<Longrightarrow> Q x) \<Longrightarrow> ok r Q"
  by (cases r) simp_all

lemma ok_schedule:
  "distinct (wait s) \<Longrightarrow> ok (schedule t i w s) P = P (sched t i w s)"
  by (simp add: schedule_eq sched_def)

lemma ok_schedule_immediately:
  "inv_wait s \<Longrightarrow> after w s \<Longrightarrow> ok (schedule_immediately t i w s) P = P (simm t i w s)"
  by (simp add: schedule_immediately_eq simm_def inv_wait_def after_def)

lemma ok_cancel: "distinct (wait s) \<Longrightarrow> ok (cancel t s) P = P (canc t s)"
  by (simp add: cancel_eq canc_def)

lemma sched_fields [simp]:
  "floor (sched t i w s) = floor s" "d1 (sched t i w s) = d1 s" "d2 (sched t i w s) = d2 s"
  "d3 (sched t i w s) = d3 s" "state (sched t i w s) = state s"
  "callup (sched t i w s) = callup s" "calldown (sched t i w s) = calldown s"
  "callcar (sched t i w s) = callcar s" "queue (sched t i w s) = queue s"
  "elevator (sched t i w s) = elevator s" "user_in (sched t i w s) = user_in s"
  "user_out (sched t i w s) = user_out s" "allocated (sched t i w s) = allocated s"
  "rand_calls (sched t i w s) = rand_calls s" "knuth_i (sched t i w s) = knuth_i s"
  "nextinst (sched t i w s) = (nextinst s)(t := i)"
  "nexttime (sched t i w s) = (nexttime s)(t := w)"
  "set (wait (sched t i w s)) = insert t (set (wait s))"
  by (simp_all add: sched_def)

lemma simm_fields [simp]:
  "floor (simm t i w s) = floor s" "d1 (simm t i w s) = d1 s" "d2 (simm t i w s) = d2 s"
  "d3 (simm t i w s) = d3 s" "state (simm t i w s) = state s"
  "callup (simm t i w s) = callup s" "calldown (simm t i w s) = calldown s"
  "callcar (simm t i w s) = callcar s" "queue (simm t i w s) = queue s"
  "elevator (simm t i w s) = elevator s" "user_in (simm t i w s) = user_in s"
  "user_out (simm t i w s) = user_out s" "allocated (simm t i w s) = allocated s"
  "rand_calls (simm t i w s) = rand_calls s" "knuth_i (simm t i w s) = knuth_i s"
  "nextinst (simm t i w s) = (nextinst s)(t := i)"
  "nexttime (simm t i w s) = (nexttime s)(t := w)"
  "wait (simm t i w s) = t # remove1 t (wait s)"
  by (simp_all add: simm_def)

lemma canc_fields [simp]:
  "floor (canc t s) = floor s" "d1 (canc t s) = d1 s" "d2 (canc t s) = d2 s"
  "d3 (canc t s) = d3 s" "state (canc t s) = state s"
  "callup (canc t s) = callup s" "calldown (canc t s) = calldown s"
  "callcar (canc t s) = callcar s" "queue (canc t s) = queue s"
  "elevator (canc t s) = elevator s" "user_in (canc t s) = user_in s"
  "user_out (canc t s) = user_out s" "allocated (canc t s) = allocated s"
  "rand_calls (canc t s) = rand_calls s" "knuth_i (canc t s) = knuth_i s"
  "nextinst (canc t s) = nextinst s"
  "nexttime (canc t s) = nexttime s"
  "wait (canc t s) = remove1 t (wait s)"
  by (simp_all add: canc_def)

lemma distinct_sched [simp]: "distinct (wait s) \<Longrightarrow> distinct (wait (sched t i w s))"
  by (simp add: sched_def)

lemma inv_wait_sched [simp]: "distinct (wait s) \<Longrightarrow> inv_wait (sched t i w s)"
  by (simp add: inv_wait_def sched_def)

lemma map_upd_notin: "t \<notin> set xs \<Longrightarrow> map (tm(t := w)) xs = map tm xs"
  by (induction xs) auto

lemma sorted_map_upd:
  "t \<notin> set xs \<Longrightarrow> sorted (map (tm(t := w)) xs) = sorted (map tm xs)"
  using map_upd_notin [of t xs tm w] by simp

lemma inv_wait_simm [simp]: "inv_wait s \<Longrightarrow> after w s \<Longrightarrow> inv_wait (simm t i w s)"
  by (auto simp: inv_wait_def after_def simm_def sorted_map_upd sorted_map_remove1
      dest: notin_set_remove1)

lemma inv_wait_canc [simp]: "inv_wait s \<Longrightarrow> inv_wait (canc t s)"
  by (simp add: inv_wait_def canc_def sorted_map_remove1)

lemma after_sched [simp]: "after now s \<Longrightarrow> now \<le> w \<Longrightarrow> after now (sched t i w s)"
  by (auto simp: after_def)

lemma after_simm [simp]: "after now s \<Longrightarrow> now \<le> w \<Longrightarrow> after now (simm t i w s)"
  by (auto simp: after_def dest: notin_set_remove1)

lemma after_canc [simp]: "after now s \<Longrightarrow> after now (canc t s)"
  by (auto simp: after_def dest: notin_set_remove1)

lemma hd_sched:
  assumes "wait s = a # r" "a \<noteq> t" "inv_wait s" "nexttime s a \<le> w"
  shows "hd (wait (sched t i w s)) = a"
proof -
  have "\<forall>x\<in>set r. ((nexttime s)(t := w)) a \<le> ((nexttime s)(t := w)) x"
    using assms by (auto simp: inv_wait_def)
  then have "enqueue ((nexttime s)(t := w)) t (a # r) = a # enqueue ((nexttime s)(t := w)) t r"
    using assms by (intro enqueue_Cons) auto
  then show ?thesis using assms by (simp add: sched_def)
qed

lemma wants_up_iff: "(passenger_wants_up s \<or> waiter_wants_up s) = call_above s"
proof -
  have "\<And>j P. (j \<noteq> floor s \<and> P \<and> j > floor s) = (floor s < j \<and> P)"
    by auto
  then show ?thesis
    unfolding passenger_wants_up_def waiter_wants_up_def call_above_def anycall_def list_ex_iff
    by simp blast
qed

lemma wants_down_iff: "(passenger_wants_down s \<or> waiter_wants_down s) = call_below s"
proof -
  have "\<And>j P. (j \<noteq> floor s \<and> P \<and> \<not> j > floor s) = (j < floor s \<and> P)"
    by auto
  then show ?thesis
    unfolding passenger_wants_down_def waiter_wants_down_def call_below_def anycall_def list_ex_iff
    by simp blast
qed

lemma pop_wait:
  assumes "sim_inv (s\<lparr>wait := t # wait s\<rparr>)"
  shows "inv_wait s" "after (nexttime s t) s" "t \<notin> set (wait s)" "distinct (wait s)"
  using assms by (auto simp: sim_inv_def inv_wait_def after_def)

lemma pop_running:
  assumes "sim_inv (s\<lparr>wait := t # wait s\<rparr>)" "\<And>u. t \<noteq> UserT u"
  shows "running t s"
proof -
  note w = pop_wait [OF assms(1)]
  have 2: "inv_steps s" using assms(1) by (simp add: sim_inv_def inv_steps_def)
  have 3: "inv_doors s" using assms(1) by (simp add: sim_inv_def inv_doors_def)
  have 4: "inv_floor s" using assms(1)
    by (simp add: sim_inv_def inv_floor_def call_above_def call_below_def anycall_def)
  have k: "\<forall>u. UserT u \<in> set (wait s) \<longrightarrow> nextinst s (UserT u) \<noteq> 5"
    using assms unfolding sim_inv_def inv_users_def by (simp; metis)
  have 5: "inv_users s"
    using assms k unfolding sim_inv_def inv_users_def by (simp; metis)
  show ?thesis using w 2 3 4 5 k by (simp add: running_def sim_inv_def)
qed

subsection \<open>The elevator: waiting, opening the doors\<close>

lemma inv_wait_upd [simp]:
  "inv_wait (s\<lparr>d1 := a\<rparr>) = inv_wait s" "inv_wait (s\<lparr>d2 := a\<rparr>) = inv_wait s"
  "inv_wait (s\<lparr>d3 := a\<rparr>) = inv_wait s" "inv_wait (s\<lparr>state := b\<rparr>) = inv_wait s"
  "inv_wait (s\<lparr>floor := c\<rparr>) = inv_wait s" "inv_wait (s\<lparr>callup := e\<rparr>) = inv_wait s"
  "inv_wait (s\<lparr>calldown := e\<rparr>) = inv_wait s" "inv_wait (s\<lparr>callcar := e\<rparr>) = inv_wait s"
  "inv_wait (s\<lparr>queue := q\<rparr>) = inv_wait s" "inv_wait (s\<lparr>elevator := l\<rparr>) = inv_wait s"
  "inv_wait (s\<lparr>user_in := ui\<rparr>) = inv_wait s" "inv_wait (s\<lparr>user_out := ui\<rparr>) = inv_wait s"
  "inv_wait (s\<lparr>allocated := n\<rparr>) = inv_wait s" "inv_wait (s\<lparr>rand_calls := n\<rparr>) = inv_wait s"
  "inv_wait (s\<lparr>knuth_i := n\<rparr>) = inv_wait s"
  by (simp_all add: inv_wait_def)

lemma after_upd [simp]:
  "after now (s\<lparr>d1 := a\<rparr>) = after now s" "after now (s\<lparr>d2 := a\<rparr>) = after now s"
  "after now (s\<lparr>d3 := a\<rparr>) = after now s" "after now (s\<lparr>state := b\<rparr>) = after now s"
  "after now (s\<lparr>floor := c\<rparr>) = after now s" "after now (s\<lparr>callup := e\<rparr>) = after now s"
  "after now (s\<lparr>calldown := e\<rparr>) = after now s" "after now (s\<lparr>callcar := e\<rparr>) = after now s"
  "after now (s\<lparr>queue := q\<rparr>) = after now s" "after now (s\<lparr>elevator := l\<rparr>) = after now s"
  "after now (s\<lparr>user_in := ui\<rparr>) = after now s" "after now (s\<lparr>user_out := ui\<rparr>) = after now s"
  "after now (s\<lparr>allocated := n\<rparr>) = after now s" "after now (s\<lparr>rand_calls := n\<rparr>) = after now s"
  "after now (s\<lparr>knuth_i := n\<rparr>) = after now s"
  by (simp_all add: after_def)

lemma running_facts:
  assumes "running t s"
  shows "sim_inv s" "inv_wait s" "distinct (wait s)" "after (nexttime s t) s" "t \<notin> set (wait s)"
    "inv_steps s" "inv_doors s" "inv_floor s" "inv_users s"
    "\<And>u. UserT u \<in> set (wait s) \<Longrightarrow> nextinst s (UserT u) \<noteq> 5"
  using assms by (auto simp: running_def sim_inv_def inv_wait_def)

lemma E1_ok:
  assumes "running ElevatorT s" "nextinst s ElevatorT = 1"
  shows "ok (E1 s) sim_inv"
  using running_facts [OF assms(1)] assms(2) by (simp add: E1_def inv_floor_def)

lemma E3_ok:
  assumes "running ElevatorT s"
    and "nextinst s ElevatorT = 2 \<or> nextinst s ElevatorT = 3"
    and "(state s = GoingUp \<longrightarrow> call_above s) \<and> (state s = GoingDown \<longrightarrow> call_below s)"
  shows "ok (E3 s) sim_inv"
proof -
  note r = running_facts [OF assms(1)]
  let ?s' = "sched ElevatorT 4 (nexttime s ElevatorT + durationOfDoorOpen)
     (sched E5T 5 (nexttime s ElevatorT + durationBeforeDoorClose)
       (sched E9T 9 (nexttime s ElevatorT + durationBeforeInactivity) (s\<lparr>d1 := True, d2 := True\<rparr>)))"
  have eq: "ok (E3 s) sim_inv = sim_inv ?s'"
    using r(3) by (simp add: E3_def Let_def ok_schedule)
  have 1: "inv_wait ?s'" using r(3) by simp
  have 2: "inv_steps ?s'" using r(6) by (simp add: inv_steps_def)
  have 3: "inv_doors ?s'" using r(7) assms(2) by (auto simp: inv_doors_def)
  have 4: "inv_floor ?s'" using r(8) assms(2,3)
    by (auto simp: inv_floor_def call_above_def call_below_def anycall_def)
  have 5: "inv_users ?s'" using r(9,10)
    unfolding inv_users_def by (simp; blast)
  show ?thesis using eq 1 2 3 4 5 by (simp add: sim_inv_def)
qed

lemma running_state:
  assumes "running ElevatorT s" "nextinst s ElevatorT = 2"
  shows "running ElevatorT (s\<lparr>state := d\<rparr>)"
proof -
  note r = running_facts [OF assms(1)]
  have 2: "inv_steps (s\<lparr>state := d\<rparr>)" using r(6) by (simp add: inv_steps_def)
  have 3: "inv_doors (s\<lparr>state := d\<rparr>)" using r(7) by (simp add: inv_doors_def)
  have 4: "inv_floor (s\<lparr>state := d\<rparr>)" using r(8) assms(2)
    by (simp add: inv_floor_def call_above_def call_below_def anycall_def)
  have 5: "inv_users (s\<lparr>state := d\<rparr>)" using r(9) by (simp add: inv_users_def)
  show ?thesis using r 2 3 4 5 by (simp add: running_def sim_inv_def)
qed

lemma call_above_state [simp]: "call_above (s\<lparr>state := d\<rparr>) = call_above s"
  by (simp add: call_above_def anycall_def)

lemma call_below_state [simp]: "call_below (s\<lparr>state := d\<rparr>) = call_below s"
  by (simp add: call_below_def anycall_def)

lemma E2_state_justified:
  "(E2_state s = GoingUp \<longrightarrow> call_above s) \<and> (E2_state s = GoingDown \<longrightarrow> call_below s)"
proof -
  have "passenger_wants_up s \<Longrightarrow> call_above s" "passenger_wants_down s \<Longrightarrow> call_below s"
    using wants_up_iff [of s] wants_down_iff [of s] by auto
  then show ?thesis
    using wants_up_iff [of s] wants_down_iff [of s] by (auto simp: E2_state_def)
qed

lemma E2_ok:
  assumes "running ElevatorT s" "nextinst s ElevatorT = 2"
  shows "ok (E2 s) sim_inv"
  unfolding E2_def
  by (rule E3_ok [OF running_state [OF assms]]) (use assms(2) E2_state_justified [of s] in simp_all)

subsection \<open>Riders under the scheduler primitives\<close>

lemma distinct_simm [simp]: "distinct (wait s) \<Longrightarrow> distinct (wait (simm t i w s))"
  by simp

lemma durations_pos:
  "0 \<le> durationBeforeRapidDoorClose" "0 \<le> durationBeforeInactivity"
  "0 \<le> durationBeforeDoorClose" "0 \<le> durationOfDoorOpen" "0 \<le> durationOfLeaving"
  "0 \<le> durationOfEntering" "0 \<le> delayAfterDoorFlutter" "0 \<le> durationOfDoorClose"
  "0 \<le> durationOfUpwardAcceleration" "0 \<le> durationOfDownwardAcceleration"
  "0 \<le> durationOfDoorOpenFromDecisionSubroutine" "0 \<le> delayBeforeHoming"
  "0 \<le> durationOfUpwardTravel" "0 \<le> durationOfUpwardDeceleration"
  "0 \<le> durationOfDownwardTravel" "0 \<le> durationOfDownwardDeceleration"
  by (simp_all add: durations)

lemma sys_task_simps [simp]:
  "sys_task ElevatorT" "sys_task E5T" "sys_task E9T" "\<not> sys_task (UserT u)"
  by (simp_all add: sys_task_def)

lemma sys_task_neq [simp]: "sys_task t \<Longrightarrow> t \<noteq> UserT u" "sys_task t \<Longrightarrow> UserT u \<noteq> t"
  by (auto simp: sys_task_def)

lemma users_queueD:
  assumes "inv_users s" "u \<in> set (queue s f)"
  shows "0 \<le> f" "f \<le> 4" "user_in s u = f" "0 \<le> user_out s u" "user_out s u \<le> 4"
    "user_out s u \<noteq> f" "u < allocated s"
    "nextinst s (UserT u) = 4 \<or> nextinst s (UserT u) = 5 \<and> UserT u \<in> set (wait s)"
  using assms unfolding inv_users_def by blast+

lemma users_elevD:
  assumes "inv_users s" "u \<in> set (elevator s)"
  shows "u < allocated s"
    "nextinst s (UserT u) = 5 \<and> UserT u \<notin> set (wait s) \<or>
     nextinst s (UserT u) = 6 \<and> UserT u \<in> set (wait s)"
  using assms unfolding inv_users_def by blast+

lemma users_waitD:
  assumes "inv_users s" "UserT u \<in> set (wait s)"
  shows "u < allocated s"
    "nextinst s (UserT u) = 5 \<Longrightarrow>
       hd (wait s) = UserT u \<and> u \<in> set (queue s (floor s)) \<and> nextinst s ElevatorT = 4"
  using assms unfolding inv_users_def by blast+

lemma users_distinctD:
  assumes "inv_users s"
  shows "distinct (queue s f)" "distinct (elevator s)"
    "\<exists>u. UserT u \<in> set (wait s) \<and> nextinst s (UserT u) = 1"
  using assms unfolding inv_users_def by blast+

lemma inv_users_sched_sys:
  assumes "inv_users s" "no_kicked s" "sys_task t"
  shows "inv_users (sched t i w s)"
  using assms unfolding inv_users_def no_kicked_def
  by (simp; blast)

lemma inv_users_simm_sys:
  assumes "inv_users s" "no_kicked s" "sys_task t"
  shows "inv_users (simm t i w s)"
  using assms unfolding inv_users_def no_kicked_def
  by (simp; blast dest: notin_set_remove1)

lemma inv_users_canc:
  assumes "inv_users s" "no_kicked s" "sys_task t"
  shows "inv_users (canc t s)"
  using assms unfolding inv_users_def no_kicked_def
  by (simp; blast dest: notin_set_remove1)

lemma inv_users_upd [simp]:
  "inv_users (s\<lparr>d1 := a\<rparr>) = inv_users s" "inv_users (s\<lparr>d2 := a\<rparr>) = inv_users s"
  "inv_users (s\<lparr>d3 := a\<rparr>) = inv_users s" "inv_users (s\<lparr>state := b\<rparr>) = inv_users s"
  "inv_users (s\<lparr>callup := e\<rparr>) = inv_users s"
  "inv_users (s\<lparr>calldown := e\<rparr>) = inv_users s" "inv_users (s\<lparr>callcar := e\<rparr>) = inv_users s"
  "inv_users (s\<lparr>rand_calls := n\<rparr>) = inv_users s"
  "inv_users (s\<lparr>knuth_i := n\<rparr>) = inv_users s"
  by (simp_all add: inv_users_def)

lemma inv_users_floor: "inv_users s \<Longrightarrow> no_kicked s \<Longrightarrow> inv_users (s\<lparr>floor := c\<rparr>)"
  unfolding inv_users_def no_kicked_def by (simp; blast)

lemma no_kicked_upd [simp]:
  "no_kicked (s\<lparr>d1 := a\<rparr>) = no_kicked s" "no_kicked (s\<lparr>d2 := a\<rparr>) = no_kicked s"
  "no_kicked (s\<lparr>d3 := a\<rparr>) = no_kicked s" "no_kicked (s\<lparr>state := b\<rparr>) = no_kicked s"
  "no_kicked (s\<lparr>floor := c\<rparr>) = no_kicked s" "no_kicked (s\<lparr>callup := e\<rparr>) = no_kicked s"
  "no_kicked (s\<lparr>calldown := e\<rparr>) = no_kicked s" "no_kicked (s\<lparr>callcar := e\<rparr>) = no_kicked s"
  "no_kicked (s\<lparr>queue := q\<rparr>) = no_kicked s" "no_kicked (s\<lparr>elevator := l\<rparr>) = no_kicked s"
  "no_kicked (s\<lparr>user_in := ui\<rparr>) = no_kicked s" "no_kicked (s\<lparr>user_out := ui\<rparr>) = no_kicked s"
  "no_kicked (s\<lparr>allocated := n\<rparr>) = no_kicked s" "no_kicked (s\<lparr>rand_calls := n\<rparr>) = no_kicked s"
  "no_kicked (s\<lparr>knuth_i := n\<rparr>) = no_kicked s"
  by (simp_all add: no_kicked_def)

lemma no_kicked_sched [simp]:
  "no_kicked s \<Longrightarrow> sys_task t \<or> i \<noteq> 5 \<Longrightarrow> no_kicked (sched t i w s)"
  unfolding no_kicked_def by auto

lemma no_kicked_simm [simp]:
  "no_kicked s \<Longrightarrow> sys_task t \<or> i \<noteq> 5 \<Longrightarrow> no_kicked (simm t i w s)"
  unfolding no_kicked_def by (auto dest: notin_set_remove1)

lemma no_kicked_canc [simp]: "no_kicked s \<Longrightarrow> no_kicked (canc t s)"
  unfolding no_kicked_def by (simp; blast dest: notin_set_remove1)

lemma running_no_kicked: "running t s \<Longrightarrow> no_kicked s"
  by (simp add: running_def no_kicked_def)

subsection \<open>Handing a rider its next step\<close>

lemma inv_usersI:
  assumes "\<And>f u. u \<in> set (queue s f) \<Longrightarrow>
         0 \<le> f \<and> f \<le> 4 \<and> user_in s u = f \<and> 0 \<le> user_out s u \<and> user_out s u \<le> 4 \<and>
         user_out s u \<noteq> f \<and> u < allocated s \<and>
         (nextinst s (UserT u) = 4 \<or> nextinst s (UserT u) = 5 \<and> UserT u \<in> set (wait s))"
    and "\<And>f. distinct (queue s f)"
    and "distinct (elevator s)"
    and "\<And>u. u \<in> set (elevator s) \<Longrightarrow> u < allocated s \<and>
         (nextinst s (UserT u) = 5 \<and> UserT u \<notin> set (wait s) \<or>
          nextinst s (UserT u) = 6 \<and> UserT u \<in> set (wait s))"
    and "\<And>u. UserT u \<in> set (wait s) \<Longrightarrow>
         u < allocated s \<and>
         (nextinst s (UserT u) = 5 \<longrightarrow>
            hd (wait s) = UserT u \<and> u \<in> set (queue s (floor s)) \<and> nextinst s ElevatorT = 4)"
    and "\<exists>u. UserT u \<in> set (wait s) \<and> nextinst s (UserT u) = 1"
  shows "inv_users s"
  unfolding inv_users_def using assms by blast

lemma inv_users_simm_leaver:
  assumes "inv_users s" "no_kicked s" "l \<in> set (elevator s)"
  shows "inv_users (simm (UserT l) 6 w s)"
proof (rule inv_usersI)
  note Q = users_queueD [OF assms(1)]
  note E = users_elevD [OF assms(1)]
  note W = users_waitD [OF assms(1)]
  note D = users_distinctD [OF assms(1)]
  have q: "\<And>f. l \<notin> set (queue s f)"
    using Q E [OF assms(3)] by fastforce
  let ?s = "simm (UserT l) 6 w s"
  show "\<And>f. distinct (queue ?s f)" using D by simp
  show "distinct (elevator ?s)" using D by simp
  show "\<exists>u. UserT u \<in> set (wait ?s) \<and> nextinst ?s (UserT u) = 1"
  proof -
    obtain a where a: "UserT a \<in> set (wait s)" "nextinst s (UserT a) = 1" using D(3) by blast
    then have "a \<noteq> l" using E [OF assms(3)] by auto
    then show ?thesis using a by (intro exI [of _ a]) simp
  qed
  show "0 \<le> f \<and> f \<le> 4 \<and> user_in ?s u = f \<and> 0 \<le> user_out ?s u \<and> user_out ?s u \<le> 4 \<and>
         user_out ?s u \<noteq> f \<and> u < allocated ?s \<and>
         (nextinst ?s (UserT u) = 4 \<or> nextinst ?s (UserT u) = 5 \<and> UserT u \<in> set (wait ?s))"
    if "u \<in> set (queue ?s f)" for f u
  proof -
    from that have m: "u \<in> set (queue s f)" by simp
    then have "u \<noteq> l" using q by auto
    then show ?thesis using Q [OF m] by auto
  qed
  show "u < allocated ?s \<and>
         (nextinst ?s (UserT u) = 5 \<and> UserT u \<notin> set (wait ?s) \<or>
          nextinst ?s (UserT u) = 6 \<and> UserT u \<in> set (wait ?s))"
    if "u \<in> set (elevator ?s)" for u
  proof -
    from that have m: "u \<in> set (elevator s)" by simp
    show ?thesis using E [OF m] by (cases "u = l") auto
  qed
  show "u < allocated ?s \<and>
         (nextinst ?s (UserT u) = 5 \<longrightarrow>
            hd (wait ?s) = UserT u \<and> u \<in> set (queue ?s (floor ?s)) \<and> nextinst ?s ElevatorT = 4)"
    if "UserT u \<in> set (wait ?s)" for u
  proof (cases "u = l")
    case True
    then show ?thesis using E [OF assms(3)] by simp
  next
    case False
    with that have m: "UserT u \<in> set (wait s)" by simp
    then show ?thesis using W [OF m] assms(2) False by (auto simp: no_kicked_def)
  qed
qed

lemma inv_users_simm_enterer:
  assumes "inv_users s" "no_kicked s" "e \<in> set (queue s (floor s))" "nextinst s ElevatorT = 4"
  shows "inv_users (simm (UserT e) 5 w s)"
proof (rule inv_usersI)
  note Q = users_queueD [OF assms(1)]
  note E = users_elevD [OF assms(1)]
  note W = users_waitD [OF assms(1)]
  note D = users_distinctD [OF assms(1)]
  have e4: "nextinst s (UserT e) = 4"
    using Q(8) [OF assms(3)] assms(2) by (auto simp: no_kicked_def)
  let ?s = "simm (UserT e) 5 w s"
  show "\<And>f. distinct (queue ?s f)" using D by simp
  show "distinct (elevator ?s)" using D by simp
  show "\<exists>u. UserT u \<in> set (wait ?s) \<and> nextinst ?s (UserT u) = 1"
  proof -
    obtain a where a: "UserT a \<in> set (wait s)" "nextinst s (UserT a) = 1" using D(3) by blast
    then have "a \<noteq> e" using e4 by auto
    then show ?thesis using a by (intro exI [of _ a]) simp
  qed
  show "0 \<le> f \<and> f \<le> 4 \<and> user_in ?s u = f \<and> 0 \<le> user_out ?s u \<and> user_out ?s u \<le> 4 \<and>
         user_out ?s u \<noteq> f \<and> u < allocated ?s \<and>
         (nextinst ?s (UserT u) = 4 \<or> nextinst ?s (UserT u) = 5 \<and> UserT u \<in> set (wait ?s))"
    if "u \<in> set (queue ?s f)" for f u
  proof -
    from that have m: "u \<in> set (queue s f)" by simp
    show ?thesis using Q [OF m] by (cases "u = e") auto
  qed
  show "u < allocated ?s \<and>
         (nextinst ?s (UserT u) = 5 \<and> UserT u \<notin> set (wait ?s) \<or>
          nextinst ?s (UserT u) = 6 \<and> UserT u \<in> set (wait ?s))"
    if "u \<in> set (elevator ?s)" for u
  proof -
    from that have m: "u \<in> set (elevator s)" by simp
    then have "u \<noteq> e" using E [OF m] e4 by auto
    then show ?thesis using E [OF m] by auto
  qed
  show "u < allocated ?s \<and>
         (nextinst ?s (UserT u) = 5 \<longrightarrow>
            hd (wait ?s) = UserT u \<and> u \<in> set (queue ?s (floor ?s)) \<and> nextinst ?s ElevatorT = 4)"
    if "UserT u \<in> set (wait ?s)" for u
  proof (cases "u = e")
    case True
    then show ?thesis using Q [OF assms(3)] assms(3,4) by simp
  next
    case False
    with that have m: "UserT u \<in> set (wait s)" by simp
    then show ?thesis using W [OF m] assms(2) False by (auto simp: no_kicked_def)
  qed
qed

lemma inv_users_sched_front:
  assumes "inv_users s" "inv_wait s" "wait s = UserT e # r" "nexttime s (UserT e) \<le> w"
  shows "inv_users (sched ElevatorT 4 w s)"
proof (rule inv_usersI)
  note Q = users_queueD [OF assms(1)]
  note E = users_elevD [OF assms(1)]
  note W = users_waitD [OF assms(1)]
  note D = users_distinctD [OF assms(1)]
  let ?s = "sched ElevatorT 4 w s"
  have h: "hd (wait ?s) = UserT e"
    using assms by (intro hd_sched) auto
  show "\<And>f. distinct (queue ?s f)" using D by simp
  show "distinct (elevator ?s)" using D by simp
  show "\<exists>u. UserT u \<in> set (wait ?s) \<and> nextinst ?s (UserT u) = 1"
    using D(3) by auto
  show "0 \<le> f \<and> f \<le> 4 \<and> user_in ?s u = f \<and> 0 \<le> user_out ?s u \<and> user_out ?s u \<le> 4 \<and>
         user_out ?s u \<noteq> f \<and> u < allocated ?s \<and>
         (nextinst ?s (UserT u) = 4 \<or> nextinst ?s (UserT u) = 5 \<and> UserT u \<in> set (wait ?s))"
    if "u \<in> set (queue ?s f)" for f u
  proof -
    from that have m: "u \<in> set (queue s f)" by simp
    show ?thesis using Q [OF m] by auto
  qed
  show "u < allocated ?s \<and>
         (nextinst ?s (UserT u) = 5 \<and> UserT u \<notin> set (wait ?s) \<or>
          nextinst ?s (UserT u) = 6 \<and> UserT u \<in> set (wait ?s))"
    if "u \<in> set (elevator ?s)" for u
  proof -
    from that have m: "u \<in> set (elevator s)" by simp
    then show ?thesis using E [OF m] by auto
  qed
  show "u < allocated ?s \<and>
         (nextinst ?s (UserT u) = 5 \<longrightarrow>
            hd (wait ?s) = UserT u \<and> u \<in> set (queue ?s (floor ?s)) \<and> nextinst ?s ElevatorT = 4)"
    if "UserT u \<in> set (wait ?s)" for u
  proof -
    from that have m: "UserT u \<in> set (wait s)" by simp
    show ?thesis using W [OF m] h assms(3) by auto
  qed
qed

subsection \<open>The elevator: letting people out and in, closing the doors\<close>

lemma call_fields [simp]:
  "call_above (sched t i w s) = call_above s" "call_below (sched t i w s) = call_below s"
  "call_above (simm t i w s) = call_above s" "call_below (simm t i w s) = call_below s"
  "call_above (canc t s) = call_above s" "call_below (canc t s) = call_below s"
  "anycall (sched t i w s) = anycall s" "anycall (simm t i w s) = anycall s"
  "anycall (canc t s) = anycall s"
  by (simp_all add: call_above_def call_below_def anycall_def fun_eq_iff)

lemma call_upd [simp]:
  "call_above (s\<lparr>d1 := a\<rparr>) = call_above s" "call_below (s\<lparr>d1 := a\<rparr>) = call_below s"
  "call_above (s\<lparr>d2 := a\<rparr>) = call_above s" "call_below (s\<lparr>d2 := a\<rparr>) = call_below s"
  "call_above (s\<lparr>d3 := a\<rparr>) = call_above s" "call_below (s\<lparr>d3 := a\<rparr>) = call_below s"
  "anycall (s\<lparr>d1 := a\<rparr>) = anycall s" "anycall (s\<lparr>d2 := a\<rparr>) = anycall s"
  "anycall (s\<lparr>d3 := a\<rparr>) = anycall s" "anycall (s\<lparr>state := b\<rparr>) = anycall s"
  "anycall (s\<lparr>floor := c\<rparr>) = anycall s"
  by (simp_all add: call_above_def call_below_def anycall_def fun_eq_iff)

lemma E4_ok:
  assumes "running ElevatorT s" "nextinst s ElevatorT = 4" "d1 s"
  shows "ok (E4 cfg s) sim_inv"
proof -
  note r = running_facts [OF assms(1)]
  note k = running_no_kicked [OF assms(1)]
  let ?now = "nexttime s ElevatorT"
  show ?thesis
  proof (cases "leaver s")
    case (Some l)
    let ?s' = "sched ElevatorT 4 (?now + durationOfLeaving) (simm (UserT l) 6 ?now s)"
    have l: "l \<in> set (elevator s)"
      using Some by (auto simp: leaver_def find_Some_iff)
    have eq: "ok (E4 cfg s) sim_inv = sim_inv ?s'"
      using r(2,3,4) assms(3) Some
      by (simp add: E4_def Let_def ok_schedule ok_schedule_immediately)
    have 1: "inv_wait ?s'" using r(3) by simp
    have 2: "inv_steps ?s'" using r(6) assms(2)
      by (auto simp: inv_steps_def dest: notin_set_remove1)
    have 3: "inv_doors ?s'" using r(7) assms(2,3) by (auto simp: inv_doors_def)
    have 4: "inv_floor ?s'" using r(8) assms(2) by (simp add: inv_floor_def)
    have 5: "inv_users ?s'"
      using k by (intro inv_users_sched_sys inv_users_simm_leaver r(9) l) simp_all
    show ?thesis using eq 1 2 3 4 5 by (simp add: sim_inv_def)
  next
    case None
    note nl = None
    show ?thesis
    proof (cases "enterer cfg s")
      case (Some e)
      let ?s' = "sched ElevatorT 4 (?now + durationOfEntering) (simm (UserT e) 5 ?now s)"
      have e: "e \<in> set (queue s (floor s))"
        using Some by (auto simp: enterer_def find_Some_iff)
      have e4: "nextinst s (UserT e) = 4"
        using users_queueD(8) [OF r(9) e] k by (auto simp: no_kicked_def)
      have eq: "ok (E4 cfg s) sim_inv = sim_inv ?s'"
        using r(2,3,4) assms(3) Some nl e4
        by (simp add: E4_def Let_def ok_schedule ok_schedule_immediately)
      have 1: "inv_wait ?s'" using r(3) by simp
      have 2: "inv_steps ?s'" using r(6) assms(2)
        by (auto simp: inv_steps_def dest: notin_set_remove1)
      have 3: "inv_doors ?s'" using r(7) assms(2,3) by (auto simp: inv_doors_def)
      have 4: "inv_floor ?s'" using r(8) assms(2) by (simp add: inv_floor_def)
      have 5: "inv_users ?s'"
        using durations_pos r(2,4)
        by (intro inv_users_sched_front [where e = e] inv_users_simm_enterer r(9) k e assms(2))
          simp_all
      show ?thesis using eq 1 2 3 4 5 by (simp add: sim_inv_def)
    next
      case None
      let ?s' = "s\<lparr>d1 := False, d3 := True\<rparr>"
      have eq: "ok (E4 cfg s) sim_inv = sim_inv ?s'"
        using assms(3) None nl by (simp add: E4_def Let_def)
      have 2: "inv_steps ?s'" using r(6) by (simp add: inv_steps_def)
      have 3: "inv_doors ?s'" using r(5,7) assms(2) by (auto simp: inv_doors_def)
      have 4: "inv_floor ?s'" using r(8) by (simp add: inv_floor_def)
      show ?thesis using eq 2 3 4 r(2,9) by (simp add: sim_inv_def)
    qed
  qed
qed

lemma E5_ok:
  assumes "running E5T s" "nextinst s E5T = 5" "nextinst s ElevatorT = 4"
  shows "ok (E5Task_resume s) sim_inv"
proof -
  note r = running_facts [OF assms(1)]
  note k = running_no_kicked [OF assms(1)]
  let ?now = "nexttime s E5T"
  show ?thesis
  proof (cases "d1 s")
    case True
    let ?s' = "sched E5T 5 (?now + delayAfterDoorFlutter) s"
    have eq: "ok (E5Task_resume s) sim_inv = sim_inv ?s'"
      using r(3) assms(2) True by (simp add: E5Task_resume_def Let_def ok_schedule)
    have 1: "inv_wait ?s'" using r(3) by simp
    have 2: "inv_steps ?s'" using r(6) assms(3) by (auto simp: inv_steps_def)
    have 3: "inv_doors ?s'" using r(7) by (auto simp: inv_doors_def)
    have 4: "inv_floor ?s'" using r(8) by (simp add: inv_floor_def)
    have 5: "inv_users ?s'" using k by (intro inv_users_sched_sys r(9)) simp_all
    show ?thesis using eq 1 2 3 4 5 by (simp add: sim_inv_def)
  next
    case False
    let ?s' = "sched ElevatorT 6 (?now + durationOfDoorClose) (s\<lparr>d3 := False\<rparr>)"
    have eq: "ok (E5Task_resume s) sim_inv = sim_inv ?s'"
      using r(3) assms(2) False by (simp add: E5Task_resume_def Let_def ok_schedule)
    have 1: "inv_wait ?s'" using r(3) by simp
    have 2: "inv_steps ?s'" using r(5,6) by (auto simp: inv_steps_def)
    have 3: "inv_doors ?s'" using r(7) False by (auto simp: inv_doors_def)
    have 4: "inv_floor ?s'" using r(8) assms(3) by (simp add: inv_floor_def)
    have 5: "inv_users ?s'" using k r(9) by (intro inv_users_sched_sys) simp_all
    show ?thesis using eq 1 2 3 4 5 by (simp add: sim_inv_def)
  qed
qed

subsection \<open>The decision subroutine\<close>

lemma D3_target_Some:
  assumes "D3_target s = Some j"
  shows "j \<noteq> floor s" "j \<noteq> - 1" "toward (floor s) j \<noteq> Neutral"
    "toward (floor s) j = GoingUp \<Longrightarrow> call_above s"
    "toward (floor s) j = GoingDown \<Longrightarrow> call_below s"
proof -
  from assms have j: "j \<in> set floors" "j \<noteq> floor s" "anycall s j"
    by (auto simp: D3_target_def find_Some_iff anycall_def in_set_conv_nth)
  show "j \<noteq> floor s" by fact
  show "j \<noteq> - 1" using j(1) by (auto simp: floors_def)
  show "toward (floor s) j \<noteq> Neutral" using j(2) by (auto simp: toward_def)
  show "call_above s" if "toward (floor s) j = GoingUp"
  proof -
    from that have "floor s < j" by (auto simp: toward_def split: if_splits)
    then show ?thesis using j unfolding call_above_def list_ex_iff by blast
  qed
  show "call_below s" if "toward (floor s) j = GoingDown"
  proof -
    from that have "j < floor s" by (auto simp: toward_def split: if_splits)
    then show ?thesis using j unfolding call_below_def list_ex_iff by blast
  qed
qed

lemma decision_unfold:
  "decision now b s =
     (if state s \<noteq> Neutral then Inr s
      else if nextinst s ElevatorT = 1 \<and> (callup s 2 \<or> calldown s 2 \<or> callcar s 2)
        then schedule ElevatorT 3 (now + durationOfDoorOpenFromDecisionSubroutine) s
      else case D3_target s of
          Some j \<Rightarrow>
            if nextinst s ElevatorT = 1 \<and> j \<noteq> 2
            then schedule ElevatorT 6 (now + delayBeforeHoming) (s\<lparr>state := toward (floor s) j\<rparr>)
            else Inr (s\<lparr>state := toward (floor s) j\<rparr>)
        | None \<Rightarrow> if b then Inr (s\<lparr>state := toward (floor s) 2\<rparr>) else Inr s)"
proof (cases "D3_target s")
  case None
  then show ?thesis
    by (auto simp: decision_def Let_def D3_target_def [symmetric] toward_def)
next
  case (Some j)
  then show ?thesis
    using D3_target_Some(2) [OF Some]
    by (auto simp: decision_def Let_def D3_target_def [symmetric] toward_def)
qed

lemma same_users_refl [simp]: "same_users s s"
  by (simp add: same_users_def)

lemma same_users_sched [simp]: "sys_task t \<Longrightarrow> same_users s (sched t i w s')  = same_users s s'"
  by (auto simp: same_users_def)

lemma same_users_simm [simp]: "sys_task t \<Longrightarrow> same_users s (simm t i w s')  = same_users s s'"
  by (auto simp: same_users_def)

lemma same_users_upd [simp]:
  "same_users s (s'\<lparr>d1 := a\<rparr>) = same_users s s'" "same_users s (s'\<lparr>d2 := a\<rparr>) = same_users s s'"
  "same_users s (s'\<lparr>d3 := a\<rparr>) = same_users s s'"
  "same_users s (s'\<lparr>state := b\<rparr>) = same_users s s'"
  "same_users s (s'\<lparr>callup := e\<rparr>) = same_users s s'"
  "same_users s (s'\<lparr>calldown := e\<rparr>) = same_users s s'"
  "same_users s (s'\<lparr>callcar := e\<rparr>) = same_users s s'"
  by (simp_all add: same_users_def)

lemma inv_floor_toward:
  assumes "inv_floor s" "state s = Neutral" "D3_target s = Some j"
  shows "inv_floor (s\<lparr>state := toward (floor s) j\<rparr>)"
  using assms(1) D3_target_Some(4,5) [OF assms(3)]
  by (simp add: inv_floor_def)

lemma decision_ok:
  assumes "sim_inv s" "no_kicked s" "after n s" "n \<le> now"
  shows "ok (decision now False s)
           (\<lambda>s'. sim_inv s' \<and> no_kicked s' \<and> after n s' \<and> same_users s s')"
proof -
  have r: "inv_wait s" "inv_steps s" "inv_doors s" "inv_floor s" "inv_users s" "distinct (wait s)"
    using assms(1) by (auto simp: sim_inv_def inv_wait_def)
  let ?P = "\<lambda>s'. sim_inv s' \<and> no_kicked s' \<and> after n s' \<and> same_users s s'"
  have base: "?P s" using assms by simp
  have st: "?P (s\<lparr>state := toward (floor s) j\<rparr>)"
    if "state s = Neutral" "D3_target s = Some j" for j
  proof -
    have 2: "inv_steps (s\<lparr>state := toward (floor s) j\<rparr>)" using r(2) by (simp add: inv_steps_def)
    have 3: "inv_doors (s\<lparr>state := toward (floor s) j\<rparr>)" using r(3) by (simp add: inv_doors_def)
    show ?thesis
      using r(1,5) 2 3 inv_floor_toward [OF r(4) that] assms(2,3) by (simp add: sim_inv_def)
  qed
  have d2: "?P (sched ElevatorT 3 (now + durationOfDoorOpenFromDecisionSubroutine) s)"
    if "state s = Neutral" "nextinst s ElevatorT = 1"
  proof -
    let ?s' = "sched ElevatorT 3 (now + durationOfDoorOpenFromDecisionSubroutine) s"
    have 1: "inv_wait ?s'" using r(6) by simp
    have 2: "inv_steps ?s'" using r(2) that(2) by (auto simp: inv_steps_def)
    have 3: "inv_doors ?s'" using r(3) that(2) by (auto simp: inv_doors_def)
    have 4: "inv_floor ?s'" using r(4) that by (simp add: inv_floor_def)
    have 5: "inv_users ?s'" using assms(2) r(5) by (intro inv_users_sched_sys) simp_all
    have 6: "after n ?s'" using assms(3,4) durations_pos by (intro after_sched) simp_all
    show ?thesis using 1 2 3 4 5 6 assms(2) by (simp add: sim_inv_def)
  qed
  have d5: "?P (sched ElevatorT 6 (now + delayBeforeHoming) (s\<lparr>state := toward (floor s) j\<rparr>))"
    if "state s = Neutral" "nextinst s ElevatorT = 1" "D3_target s = Some j" for j
  proof -
    let ?s1 = "s\<lparr>state := toward (floor s) j\<rparr>"
    let ?s' = "sched ElevatorT 6 (now + delayBeforeHoming) ?s1"
    have 1: "inv_wait ?s'" using r(6) by simp
    have 2: "inv_steps ?s'" using r(2) that(2) by (auto simp: inv_steps_def)
    have 3: "inv_doors ?s'" using r(3) that(2) by (auto simp: inv_doors_def)
    have 4: "inv_floor ?s'"
      using inv_floor_toward [OF r(4) that(1,3)] D3_target_Some(4,5) [OF that(3)]
      by (simp add: inv_floor_def)
    have 5: "inv_users ?s'" using assms(2) r(5) by (intro inv_users_sched_sys) simp_all
    have 6: "after n ?s'" using assms(3,4) durations_pos by (intro after_sched) simp_all
    show ?thesis using 1 2 3 4 5 6 assms(2) by (simp add: sim_inv_def)
  qed
  show ?thesis
    using base st d2 d5 r(6)
    by (simp add: decision_unfold ok_schedule split: option.splits)
qed

subsection \<open>The elevator: travelling\<close>

lemma inv_steps_upd [simp]:
  "inv_steps (s\<lparr>d1 := a\<rparr>) = inv_steps s" "inv_steps (s\<lparr>d2 := a\<rparr>) = inv_steps s"
  "inv_steps (s\<lparr>d3 := a\<rparr>) = inv_steps s" "inv_steps (s\<lparr>state := b\<rparr>) = inv_steps s"
  "inv_steps (s\<lparr>floor := c\<rparr>) = inv_steps s" "inv_steps (s\<lparr>callup := e\<rparr>) = inv_steps s"
  "inv_steps (s\<lparr>calldown := e\<rparr>) = inv_steps s" "inv_steps (s\<lparr>callcar := e\<rparr>) = inv_steps s"
  "inv_steps (s\<lparr>queue := q\<rparr>) = inv_steps s" "inv_steps (s\<lparr>elevator := l\<rparr>) = inv_steps s"
  "inv_steps (s\<lparr>user_in := ui\<rparr>) = inv_steps s" "inv_steps (s\<lparr>user_out := ui\<rparr>) = inv_steps s"
  "inv_steps (s\<lparr>allocated := n\<rparr>) = inv_steps s" "inv_steps (s\<lparr>rand_calls := n\<rparr>) = inv_steps s"
  "inv_steps (s\<lparr>knuth_i := n\<rparr>) = inv_steps s"
  by (simp_all add: inv_steps_def)

lemma inv_doors_upd [simp]:
  "inv_doors (s\<lparr>d2 := a\<rparr>) = inv_doors s" "inv_doors (s\<lparr>state := b\<rparr>) = inv_doors s"
  "inv_doors (s\<lparr>floor := c\<rparr>) = inv_doors s" "inv_doors (s\<lparr>callup := e\<rparr>) = inv_doors s"
  "inv_doors (s\<lparr>calldown := e\<rparr>) = inv_doors s" "inv_doors (s\<lparr>callcar := e\<rparr>) = inv_doors s"
  "inv_doors (s\<lparr>queue := q\<rparr>) = inv_doors s" "inv_doors (s\<lparr>elevator := l\<rparr>) = inv_doors s"
  "inv_doors (s\<lparr>user_in := ui\<rparr>) = inv_doors s" "inv_doors (s\<lparr>user_out := ui\<rparr>) = inv_doors s"
  "inv_doors (s\<lparr>allocated := n\<rparr>) = inv_doors s" "inv_doors (s\<lparr>rand_calls := n\<rparr>) = inv_doors s"
  "inv_doors (s\<lparr>knuth_i := n\<rparr>) = inv_doors s"
  by (simp_all add: inv_doors_def)

lemma inv_floor_upd [simp]:
  "inv_floor (s\<lparr>d1 := a\<rparr>) = inv_floor s" "inv_floor (s\<lparr>d2 := a\<rparr>) = inv_floor s"
  "inv_floor (s\<lparr>d3 := a\<rparr>) = inv_floor s"
  "inv_floor (s\<lparr>queue := q\<rparr>) = inv_floor s" "inv_floor (s\<lparr>elevator := l\<rparr>) = inv_floor s"
  "inv_floor (s\<lparr>user_in := ui\<rparr>) = inv_floor s" "inv_floor (s\<lparr>user_out := ui\<rparr>) = inv_floor s"
  "inv_floor (s\<lparr>allocated := n\<rparr>) = inv_floor s" "inv_floor (s\<lparr>rand_calls := n\<rparr>) = inv_floor s"
  "inv_floor (s\<lparr>knuth_i := n\<rparr>) = inv_floor s"
  by (simp_all add: inv_floor_def call_above_def call_below_def anycall_def)

lemma E9_ok:
  assumes "running E9T s" "nextinst s E9T = 9"
  shows "ok (E9Task_resume s) sim_inv"
proof -
  note r = running_facts [OF assms(1)]
  note k = running_no_kicked [OF assms(1)]
  have "sim_inv (s\<lparr>d2 := False\<rparr>)" using r by (simp add: sim_inv_def)
  then have "ok (decision (nexttime s E9T) False (s\<lparr>d2 := False\<rparr>))
     (\<lambda>s'. sim_inv s' \<and> no_kicked s' \<and> after (nexttime s E9T) s' \<and> same_users (s\<lparr>d2 := False\<rparr>) s')"
    using k r(4) by (intro decision_ok) simp_all
  then have "ok (decision (nexttime s E9T) False (s\<lparr>d2 := False\<rparr>)) sim_inv"
    by (rule ok_mono) simp
  then show ?thesis
    using assms(2) by (simp add: E9Task_resume_def Let_def)
qed

lemma call_above_step:
  assumes "call_above s"
  shows "anycall s (floor s + 1) \<or> call_above (s\<lparr>floor := floor s + 1\<rparr>)"
proof -
  from assms obtain j where j: "j \<in> set floors" "floor s < j" "anycall s j"
    unfolding call_above_def list_ex_iff by blast
  show ?thesis
  proof (cases "j = floor s + 1")
    case True
    then show ?thesis using j(3) by simp
  next
    case False
    then have "floor s + 1 < j" using j(2) by simp
    then have "call_above (s\<lparr>floor := floor s + 1\<rparr>)"
      using j(1,3) unfolding call_above_def list_ex_iff by (auto simp: anycall_def)
    then show ?thesis by simp
  qed
qed

lemma call_below_step:
  assumes "call_below s"
  shows "anycall s (floor s - 1) \<or> call_below (s\<lparr>floor := floor s - 1\<rparr>)"
proof -
  from assms obtain j where j: "j \<in> set floors" "j < floor s" "anycall s j"
    unfolding call_below_def list_ex_iff by blast
  show ?thesis
  proof (cases "j = floor s - 1")
    case True
    then show ?thesis using j(3) by simp
  next
    case False
    then have "j < floor s - 1" using j(2) by simp
    then have "call_below (s\<lparr>floor := floor s - 1\<rparr>)"
      using j(1,3) unfolding call_below_def list_ex_iff by (auto simp: anycall_def)
    then show ?thesis by simp
  qed
qed

lemma call_above_top: "call_above s \<Longrightarrow> floor s < 4"
  unfolding call_above_def list_ex_iff floors_def by auto

lemma call_below_bottom: "call_below s \<Longrightarrow> 0 < floor s"
  unfolding call_below_def list_ex_iff floors_def by auto

lemma E7_ok:
  assumes "running ElevatorT s" "nextinst s ElevatorT = 7"
  shows "ok (E7 s) sim_inv"
proof -
  note r = running_facts [OF assms(1)]
  note k = running_no_kicked [OF assms(1)]
  let ?s' = "sched ElevatorT 71 (nexttime s ElevatorT + durationOfUpwardTravel)
               (s\<lparr>floor := floor s + 1\<rparr>)"
  have j: "call_above s \<or> floor s < 2" using r(8) assms(2) by (simp add: inv_floor_def)
  then have f: "floor s < 4" using call_above_top [of s] by auto
  have d: "\<not> d1 s" using r(7) assms(2) by (simp add: inv_doors_def)
  have eq: "ok (E7 s) sim_inv = sim_inv ?s'"
    using r(3) f d by (simp add: E7_def Let_def ok_schedule)
  have 1: "inv_wait ?s'" using r(3) by simp
  have 2: "inv_steps ?s'" using r(6) assms(2) by (auto simp: inv_steps_def)
  have 3: "inv_doors ?s'" using r(7) assms(2) by (auto simp: inv_doors_def)
  have c: "anycall s (floor s + 1) \<or> call_above (s\<lparr>floor := floor s + 1\<rparr>) \<or> floor s + 1 \<le> 2"
    using j call_above_step [of s] by auto
  have "0 \<le> floor s" using r(8) by (simp add: inv_floor_def)
  then have 4: "inv_floor ?s'" using f c by (simp add: inv_floor_def)
  have 5: "inv_users ?s'" using k r(9) by (intro inv_users_sched_sys inv_users_floor) simp_all
  show ?thesis using eq 1 2 3 4 5 by (simp add: sim_inv_def)
qed

lemma E8_ok:
  assumes "running ElevatorT s" "nextinst s ElevatorT = 8"
  shows "ok (E8 s) sim_inv"
proof -
  note r = running_facts [OF assms(1)]
  note k = running_no_kicked [OF assms(1)]
  let ?s' = "sched ElevatorT 81 (nexttime s ElevatorT + durationOfDownwardTravel)
               (s\<lparr>floor := floor s - 1\<rparr>)"
  have j: "call_below s \<or> 2 < floor s" using r(8) assms(2) by (simp add: inv_floor_def)
  then have f: "0 < floor s" using call_below_bottom [of s] by auto
  have d: "\<not> d1 s" using r(7) assms(2) by (simp add: inv_doors_def)
  have eq: "ok (E8 s) sim_inv = sim_inv ?s'"
    using r(3) f d by (simp add: E8_def Let_def ok_schedule)
  have 1: "inv_wait ?s'" using r(3) by simp
  have 2: "inv_steps ?s'" using r(6) assms(2) by (auto simp: inv_steps_def)
  have 3: "inv_doors ?s'" using r(7) assms(2) by (auto simp: inv_doors_def)
  have c: "anycall s (floor s - 1) \<or> call_below (s\<lparr>floor := floor s - 1\<rparr>) \<or> 2 \<le> floor s - 1"
    using j call_below_step [of s] by auto
  have "floor s \<le> 4" using r(8) by (simp add: inv_floor_def)
  then have 4: "inv_floor ?s'" using f c by (simp add: inv_floor_def)
  have 5: "inv_users ?s'" using k r(9) by (intro inv_users_sched_sys inv_users_floor) simp_all
  show ?thesis using eq 1 2 3 4 5 by (simp add: sim_inv_def)
qed

lemma E71_ok:
  assumes "running ElevatorT s" "nextinst s ElevatorT = 71"
  shows "ok (E71 s) sim_inv"
proof -
  note r = running_facts [OF assms(1)]
  note k = running_no_kicked [OF assms(1)]
  let ?now = "nexttime s ElevatorT"
  show ?thesis
  proof (cases "should_stop_here_up s")
    case True
    let ?s' = "sched ElevatorT 2 (?now + durationOfUpwardDeceleration) s"
    have eq: "ok (E71 s) sim_inv = sim_inv ?s'"
      using r(3) True by (simp add: E71_def Let_def ok_schedule)
    have 1: "inv_wait ?s'" using r(3) by simp
    have 2: "inv_steps ?s'" using r(6) assms(2) by (auto simp: inv_steps_def)
    have 3: "inv_doors ?s'" using r(7) assms(2) by (auto simp: inv_doors_def)
    have 4: "inv_floor ?s'" using r(8) by (simp add: inv_floor_def)
    have 5: "inv_users ?s'" using k r(9) by (intro inv_users_sched_sys) simp_all
    show ?thesis using eq 1 2 3 4 5 by (simp add: sim_inv_def)
  next
    case False
    let ?s' = "simm ElevatorT 7 ?now s"
    have eq: "ok (E71 s) sim_inv = sim_inv ?s'"
      using r(2,4) False by (simp add: E71_def Let_def ok_schedule_immediately)
    have j: "call_above s \<or> floor s < 2"
      using False r(8) assms(2) wants_up_iff [of s]
      by (auto simp: should_stop_here_up_def inv_floor_def anycall_def)
    have 1: "inv_wait ?s'" using r(2,4) by simp
    have 2: "inv_steps ?s'" using r(6) assms(2) by (auto simp: inv_steps_def dest: notin_set_remove1)
    have 3: "inv_doors ?s'" using r(7) assms(2) by (auto simp: inv_doors_def)
    have 4: "inv_floor ?s'" using r(8) j by (simp add: inv_floor_def)
    have 5: "inv_users ?s'" using k r(9) by (intro inv_users_simm_sys) simp_all
    show ?thesis using eq 1 2 3 4 5 by (simp add: sim_inv_def)
  qed
qed

lemma E81_ok:
  assumes "running ElevatorT s" "nextinst s ElevatorT = 81"
  shows "ok (E81 s) sim_inv"
proof -
  note r = running_facts [OF assms(1)]
  note k = running_no_kicked [OF assms(1)]
  let ?now = "nexttime s ElevatorT"
  show ?thesis
  proof (cases "should_stop_here_down s")
    case True
    let ?s' = "sched ElevatorT 2 (?now + durationOfDownwardDeceleration) s"
    have eq: "ok (E81 s) sim_inv = sim_inv ?s'"
      using r(3) True by (simp add: E81_def Let_def ok_schedule)
    have 1: "inv_wait ?s'" using r(3) by simp
    have 2: "inv_steps ?s'" using r(6) assms(2) by (auto simp: inv_steps_def)
    have 3: "inv_doors ?s'" using r(7) assms(2) by (auto simp: inv_doors_def)
    have 4: "inv_floor ?s'" using r(8) by (simp add: inv_floor_def)
    have 5: "inv_users ?s'" using k r(9) by (intro inv_users_sched_sys) simp_all
    show ?thesis using eq 1 2 3 4 5 by (simp add: sim_inv_def)
  next
    case False
    let ?s' = "simm ElevatorT 8 ?now s"
    have eq: "ok (E81 s) sim_inv = sim_inv ?s'"
      using r(2,4) False by (simp add: E81_def Let_def ok_schedule_immediately)
    have j: "call_below s \<or> 2 < floor s"
      using False r(8) assms(2) wants_down_iff [of s]
      by (auto simp: should_stop_here_down_def inv_floor_def anycall_def)
    have 1: "inv_wait ?s'" using r(2,4) by simp
    have 2: "inv_steps ?s'" using r(6) assms(2) by (auto simp: inv_steps_def dest: notin_set_remove1)
    have 3: "inv_doors ?s'" using r(7) assms(2) by (auto simp: inv_doors_def)
    have 4: "inv_floor ?s'" using r(8) j by (simp add: inv_floor_def)
    have 5: "inv_users ?s'" using k r(9) by (intro inv_users_simm_sys) simp_all
    show ?thesis using eq 1 2 3 4 5 by (simp add: sim_inv_def)
  qed
qed

subsection \<open>The elevator: preparing to move\<close>

lemma E6_clear_eq:
  "E6_clear s =
     s\<lparr>callcar := (callcar s)(floor s := False),
       callup := (if state s \<noteq> GoingDown then (callup s)(floor s := False) else callup s),
       calldown := (if state s \<noteq> GoingUp then (calldown s)(floor s := False) else calldown s)\<rparr>"
  by (simp add: E6_clear_def Let_def)

lemma E6_clear_fields [simp]:
  "floor (E6_clear s) = floor s" "state (E6_clear s) = state s" "wait (E6_clear s) = wait s"
  "nextinst (E6_clear s) = nextinst s" "nexttime (E6_clear s) = nexttime s"
  "d1 (E6_clear s) = d1 s" "d2 (E6_clear s) = d2 s" "d3 (E6_clear s) = d3 s"
  "queue (E6_clear s) = queue s" "elevator (E6_clear s) = elevator s"
  "user_in (E6_clear s) = user_in s" "user_out (E6_clear s) = user_out s"
  "allocated (E6_clear s) = allocated s"
  by (simp_all add: E6_clear_eq)

lemma E6_clear_other: "j \<noteq> floor s \<Longrightarrow> anycall (E6_clear s) j = anycall s j"
  by (simp add: E6_clear_eq anycall_def)

lemma E6_clear_calls [simp]:
  "call_above (E6_clear s) = call_above s" "call_below (E6_clear s) = call_below s"
proof -
  have "(\<lambda>j. floor s < j \<and> anycall (E6_clear s) j) = (\<lambda>j. floor s < j \<and> anycall s j)"
    by (auto simp: fun_eq_iff E6_clear_other)
  then show "call_above (E6_clear s) = call_above s"
    by (simp add: call_above_def)
  have "(\<lambda>j. j < floor s \<and> anycall (E6_clear s) j) = (\<lambda>j. j < floor s \<and> anycall s j)"
    by (auto simp: fun_eq_iff E6_clear_other)
  then show "call_below (E6_clear s) = call_below s"
    by (simp add: call_below_def)
qed

lemma E6_clear_inv [simp]:
  "inv_wait (E6_clear s) = inv_wait s" "inv_steps (E6_clear s) = inv_steps s"
  "inv_doors (E6_clear s) = inv_doors s" "inv_users (E6_clear s) = inv_users s"
  "no_kicked (E6_clear s) = no_kicked s" "after n (E6_clear s) = after n s"
  by (simp_all add: E6_clear_eq)

lemma E6_decision:
  assumes "nextinst s ElevatorT \<noteq> 1"
  shows "decision now True (E6_clear s) = Inr ((E6_clear s)\<lparr>state := E6_dir s\<rparr>)"
  using assms by (simp add: decision_unfold E6_dir_def split: option.splits)

lemma E6_dir_facts:
  assumes "(state s = GoingUp \<longrightarrow> call_above s) \<and> (state s = GoingDown \<longrightarrow> call_below s)"
  shows "E6_dir s = Neutral \<Longrightarrow> floor s = 2"
    "E6_dir s = GoingUp \<Longrightarrow> call_above s \<or> floor s < 2"
    "E6_dir s = GoingDown \<Longrightarrow> call_below s \<or> 2 < floor s"
proof -
  show "E6_dir s = Neutral \<Longrightarrow> floor s = 2"
    using D3_target_Some(3) [of "E6_clear s"]
    by (auto simp: E6_dir_def toward_def split: option.splits if_splits)
  show "E6_dir s = GoingUp \<Longrightarrow> call_above s \<or> floor s < 2"
    using assms D3_target_Some(4) [of "E6_clear s"]
    by (cases "D3_target (E6_clear s)") (auto simp: E6_dir_def toward_def split: if_splits)
  show "E6_dir s = GoingDown \<Longrightarrow> call_below s \<or> 2 < floor s"
    using assms D3_target_Some(5) [of "E6_clear s"]
    by (cases "D3_target (E6_clear s)") (auto simp: E6_dir_def toward_def split: if_splits)
qed

lemma E6_ok:
  assumes "running ElevatorT s" "nextinst s ElevatorT = 6"
  shows "ok (E6 s) sim_inv"
proof -
  note r = running_facts [OF assms(1)]
  note k = running_no_kicked [OF assms(1)]
  let ?now = "nexttime s ElevatorT"
  let ?s1 = "(E6_clear s)\<lparr>state := E6_dir s\<rparr>"
  have d: "\<not> d1 s" "\<not> d3 s" using r(7) assms(2) by (simp_all add: inv_doors_def)
  have e5: "E5T \<notin> set (wait s)" using r(6) assms(2) by (auto simp: inv_steps_def)
  have fl: "0 \<le> floor s" "floor s \<le> 4" using r(8) by (simp_all add: inv_floor_def)
  have "(state s = GoingUp \<longrightarrow> call_above s) \<and> (state s = GoingDown \<longrightarrow> call_below s)"
    using r(8) assms(2) by (simp add: inv_floor_def)
  note dir = E6_dir_facts [OF this]
  have s1: "inv_wait ?s1" "inv_steps ?s1" "inv_doors ?s1" "inv_users ?s1" "no_kicked ?s1"
    "after ?now ?s1" "distinct (wait ?s1)"
    using r k by simp_all
  show ?thesis
  proof (cases "E6_dir s = Neutral")
    case True
    let ?s' = "simm ElevatorT 1 ?now ?s1"
    have eq: "ok (E6 s) sim_inv = sim_inv ?s'"
      using d assms(2) True dir(1) r(5) s1(1,6)
      by (simp add: E6_def Let_def E6_decision ok_schedule_immediately)
    have 1: "inv_wait ?s'" using s1(1,6) by simp
    have 2: "inv_steps ?s'" using e5 r(6) by (auto simp: inv_steps_def dest: notin_set_remove1)
    have 3: "inv_doors ?s'" using d by (simp add: inv_doors_def)
    have 4: "inv_floor ?s'" using fl dir(1) True by (simp add: inv_floor_def)
    have 5: "inv_users ?s'" using s1(4,5) by (intro inv_users_simm_sys) simp_all
    show ?thesis using eq 1 2 3 4 5 by (simp add: sim_inv_def)
  next
    case False
    let ?s2 = "if d2 s then canc E9T ?s1 else ?s1"
    have s2: "inv_users ?s2" "no_kicked ?s2" "distinct (wait ?s2)" "E5T \<notin> set (wait ?s2)"
      "floor ?s2 = floor s" "state ?s2 = E6_dir s" "d1 ?s2 = d1 s" "d3 ?s2 = d3 s"
      "call_above ?s2 = call_above s" "call_below ?s2 = call_below s"
      "nextinst ?s2 = nextinst s"
      using s1 e5 by (auto intro: inv_users_canc dest: notin_set_remove1)
    have s2': "inv_steps ?s2"
      using s1(2) by (auto simp: inv_steps_def dest: notin_set_remove1)
    let ?i = "if E6_dir s = GoingUp then 7 else 8"
    let ?w = "if E6_dir s = GoingUp then ?now + durationOfUpwardAcceleration
              else ?now + durationOfDownwardAcceleration"
    let ?s' = "sched ElevatorT ?i ?w ?s2"
    have eq: "ok (E6 s) sim_inv = sim_inv ?s'"
      using d assms(2) False s1(7)
      by (simp add: E6_def Let_def E6_decision ok_schedule ok_cancel)
    have 1: "inv_wait ?s'" using s2(3) by (rule inv_wait_sched)
    have 2: "inv_steps ?s'" using s2(4) s2' unfolding inv_steps_def
      by (simp only: sched_fields) auto
    have 3: "inv_doors ?s'" using d s2(7,8) unfolding inv_doors_def by simp
    have 4: "inv_floor ?s'"
    proof (cases "E6_dir s")
      case GoingUp
      then show ?thesis using fl dir(2) s2(5,9) by (simp add: inv_floor_def)
    next
      case GoingDown
      then show ?thesis using fl dir(3) s2(5,10) by (simp add: inv_floor_def)
    next
      case Neutral
      then show ?thesis using False by simp
    qed
    have 5: "inv_users ?s'" using s2(1,2) by (intro inv_users_sched_sys) simp_all
    show ?thesis using eq 1 2 3 4 5 by (simp add: sim_inv_def)
  qed
qed

subsection \<open>The arrival source; riders in a popped state\<close>

lemma knuth_data_valid: "\<forall>i\<in>set knuth_data. valid_info i"
  by (simp add: knuth_data_def valid_info_def)

lemma random_between_range:
  "lo \<le> hi \<Longrightarrow> lo \<le> random_between cfg k lo hi \<and> random_between cfg k lo hi \<le> hi"
proof -
  assume "lo \<le> hi"
  then have "0 < nat (1 + hi - lo)" by simp
  then have "rand cfg k mod nat (1 + hi - lo) < nat (1 + hi - lo)" by (rule mod_less_divisor)
  then show ?thesis by (simp add: random_between_def)
qed

lemma createNewUser_valid: "valid_info (fst (createNewUser cfg s))"
proof (cases "USE_KNUTH_DATA cfg \<and> knuth_i s < 11")
  case True
  then have "knuth_data ! knuth_i s \<in> set knuth_data"
    by (intro nth_mem) (simp add: knuth_data_def)
  then show ?thesis using True knuth_data_valid by (simp add: createNewUser_def)
next
  case False
  let ?k = "rand_calls s"
  have a: "0 \<le> random_between cfg ?k 0 4 \<and> random_between cfg ?k 0 4 \<le> 4"
    by (rule random_between_range) simp
  have b: "1 \<le> random_between cfg (?k + 1) 1 4 \<and> random_between cfg (?k + 1) 1 4 \<le> 4"
    by (rule random_between_range) simp
  have c: "300 \<le> random_between cfg (?k + 2) 300 1200 \<and> random_between cfg (?k + 2) 300 1200 \<le> 1200"
    by (rule random_between_range) simp
  have d: "10 \<le> random_between cfg (?k + 3) 10 900 \<and> random_between cfg (?k + 3) 10 900 \<le> 900"
    by (rule random_between_range) simp
  have e: "(random_between cfg ?k 0 4 + random_between cfg (?k + 1) 1 4) mod 5
      \<noteq> random_between cfg ?k 0 4"
    using a b by presburger
  have f: "0 \<le> (random_between cfg ?k 0 4 + random_between cfg (?k + 1) 1 4) mod 5"
    "(random_between cfg ?k 0 4 + random_between cfg (?k + 1) 1 4) mod 5 \<le> 4"
    by simp_all
  have "createNewUser cfg s =
      (\<lparr>info_in = random_between cfg ?k 0 4,
        info_out = (random_between cfg ?k 0 4 + random_between cfg (?k + 1) 1 4) mod 5,
        giveuptime = random_between cfg (?k + 2) 300 1200,
        intertime = random_between cfg (?k + 3) 10 900\<rparr>, s\<lparr>rand_calls := ?k + 4\<rparr>)"
    using False by (auto simp: createNewUser_def Let_def)
  then show ?thesis using a c d e f
    by (simp add: valid_info_def)
qed

lemma createNewUser_snd:
  "\<exists>a b. snd (createNewUser cfg s) = s\<lparr>rand_calls := a, knuth_i := b\<rparr>"
proof (cases "USE_KNUTH_DATA cfg \<and> knuth_i s < 11")
  case True
  then have "snd (createNewUser cfg s) = s\<lparr>rand_calls := rand_calls s, knuth_i := knuth_i s + 1\<rparr>"
    by (simp add: createNewUser_def)
  then show ?thesis by blast
next
  case False
  then have "snd (createNewUser cfg s) = s\<lparr>rand_calls := rand_calls s + 4, knuth_i := knuth_i s\<rparr>"
    by (auto simp: createNewUser_def Let_def)
  then show ?thesis by blast
qed

lemma users_popped:
  assumes "inv_users (s\<lparr>wait := UserT u # wait s\<rparr>)" "UserT u \<notin> set (wait s)"
  shows "\<And>f v. v \<in> set (queue s f) \<Longrightarrow> v \<noteq> u \<Longrightarrow>
           0 \<le> f \<and> f \<le> 4 \<and> user_in s v = f \<and> 0 \<le> user_out s v \<and> user_out s v \<le> 4 \<and>
           user_out s v \<noteq> f \<and> v < allocated s \<and> nextinst s (UserT v) = 4"
    and "\<And>f. u \<in> set (queue s f) \<Longrightarrow>
           0 \<le> f \<and> f \<le> 4 \<and> user_in s u = f \<and> 0 \<le> user_out s u \<and> user_out s u \<le> 4 \<and>
           user_out s u \<noteq> f \<and> (nextinst s (UserT u) = 4 \<or> nextinst s (UserT u) = 5)"
    and "\<And>f. distinct (queue s f)" and "distinct (elevator s)"
    and "\<And>v. v \<in> set (elevator s) \<Longrightarrow> v \<noteq> u \<Longrightarrow> v < allocated s \<and>
           (nextinst s (UserT v) = 5 \<and> UserT v \<notin> set (wait s) \<or>
            nextinst s (UserT v) = 6 \<and> UserT v \<in> set (wait s))"
    and "u \<in> set (elevator s) \<Longrightarrow> nextinst s (UserT u) = 6"
    and "\<And>v. UserT v \<in> set (wait s) \<Longrightarrow> v < allocated s \<and> nextinst s (UserT v) \<noteq> 5 \<and> v \<noteq> u"
    and "u < allocated s"
    and "nextinst s (UserT u) = 5 \<Longrightarrow> u \<in> set (queue s (floor s)) \<and> nextinst s ElevatorT = 4"
    and "nextinst s (UserT u) \<noteq> 1 \<Longrightarrow> \<exists>a. UserT a \<in> set (wait s) \<and> nextinst s (UserT a) = 1"
proof -
  let ?s0 = "s\<lparr>wait := UserT u # wait s\<rparr>"
  note Q = users_queueD [OF assms(1)]
  note E = users_elevD [OF assms(1)]
  note W = users_waitD [OF assms(1)]
  note D = users_distinctD [OF assms(1)]
  have k: "v = u" if "UserT v \<in> set (wait ?s0)" "nextinst s (UserT v) = 5" for v
    using W(2) [OF that(1)] that(2) by simp
  show "0 \<le> f \<and> f \<le> 4 \<and> user_in s v = f \<and> 0 \<le> user_out s v \<and> user_out s v \<le> 4 \<and>
           user_out s v \<noteq> f \<and> v < allocated s \<and> nextinst s (UserT v) = 4"
    if "v \<in> set (queue s f)" "v \<noteq> u" for f v
  proof -
    from that(1) have m: "v \<in> set (queue ?s0 f)" by simp
    show ?thesis using Q [OF m] k [of v] that(2) by auto
  qed
  show "0 \<le> f \<and> f \<le> 4 \<and> user_in s u = f \<and> 0 \<le> user_out s u \<and> user_out s u \<le> 4 \<and>
           user_out s u \<noteq> f \<and> (nextinst s (UserT u) = 4 \<or> nextinst s (UserT u) = 5)"
    if "u \<in> set (queue s f)" for f
  proof -
    from that have m: "u \<in> set (queue ?s0 f)" by simp
    show ?thesis using Q [OF m] by auto
  qed
  show "\<And>f. distinct (queue s f)" using D(1) by simp
  show "distinct (elevator s)" using D(2) by simp
  show "v < allocated s \<and>
           (nextinst s (UserT v) = 5 \<and> UserT v \<notin> set (wait s) \<or>
            nextinst s (UserT v) = 6 \<and> UserT v \<in> set (wait s))"
    if "v \<in> set (elevator s)" "v \<noteq> u" for v
  proof -
    from that(1) have m: "v \<in> set (elevator ?s0)" by simp
    show ?thesis using E [OF m] that(2) by auto
  qed
  show "nextinst s (UserT u) = 6" if "u \<in> set (elevator s)"
  proof -
    from that have m: "u \<in> set (elevator ?s0)" by simp
    show ?thesis using E [OF m] by auto
  qed
  show "v < allocated s \<and> nextinst s (UserT v) \<noteq> 5 \<and> v \<noteq> u" if "UserT v \<in> set (wait s)" for v
  proof -
    from that have m: "UserT v \<in> set (wait ?s0)" by simp
    show ?thesis using W(1) [OF m] k [OF m] that assms(2) by auto
  qed
  have mu: "UserT u \<in> set (wait ?s0)" by simp
  show "u < allocated s" using W(1) [OF mu] by simp
  show "nextinst s (UserT u) = 5 \<Longrightarrow> u \<in> set (queue s (floor s)) \<and> nextinst s ElevatorT = 4"
    using W(2) [OF mu] by simp
  show "\<exists>a. UserT a \<in> set (wait s) \<and> nextinst s (UserT a) = 1" if "nextinst s (UserT u) \<noteq> 1"
  proof -
    obtain a where a: "UserT a \<in> set (wait ?s0)" "nextinst ?s0 (UserT a) = 1" using D(3) by blast
    then have "a \<noteq> u" using that by auto
    then show ?thesis using a by auto
  qed
qed

subsection \<open>The rider: giving up, getting out\<close>

lemma pop_user:
  assumes "sim_inv (s\<lparr>wait := UserT u # wait s\<rparr>)"
  shows "inv_wait s" "after (nexttime s (UserT u)) s" "UserT u \<notin> set (wait s)"
    "distinct (wait s)" "inv_steps s" "inv_doors s" "inv_floor s" "no_kicked s"
    "inv_users (s\<lparr>wait := UserT u # wait s\<rparr>)"
proof -
  note w = pop_wait [OF assms]
  show "inv_wait s" "after (nexttime s (UserT u)) s" "UserT u \<notin> set (wait s)"
    "distinct (wait s)" by (rule w)+
  show "inv_steps s" using assms by (simp add: sim_inv_def inv_steps_def)
  show "inv_doors s" using assms by (simp add: sim_inv_def inv_doors_def)
  show "inv_floor s" using assms
    by (simp add: sim_inv_def inv_floor_def call_above_def call_below_def anycall_def)
  show u: "inv_users (s\<lparr>wait := UserT u # wait s\<rparr>)" using assms by (simp add: sim_inv_def)
  show "no_kicked s" using users_popped(7) [OF u w(3)] by (simp add: no_kicked_def)
qed

lemma inv_users_after_pop:
  assumes "inv_users (s\<lparr>wait := UserT u # wait s\<rparr>)" "UserT u \<notin> set (wait s)"
    and "nextinst s (UserT u) \<noteq> 1" "nextinst s (UserT u) \<noteq> 5" "nextinst s (UserT u) \<noteq> 6"
    and "\<And>f. set (q f) \<subseteq> set (queue s f) \<and> distinct (q f)"
  shows "inv_users (s\<lparr>queue := q\<rparr>)"
proof (rule inv_usersI)
  note P = users_popped [OF assms(1,2)]
  let ?s = "s\<lparr>queue := q\<rparr>"
  show "\<And>f. distinct (queue ?s f)" using assms(6) by simp
  show "distinct (elevator ?s)" using P(4) by simp
  show "\<exists>a. UserT a \<in> set (wait ?s) \<and> nextinst ?s (UserT a) = 1"
    using P(10) assms(3) by simp
  show "0 \<le> f \<and> f \<le> 4 \<and> user_in ?s v = f \<and> 0 \<le> user_out ?s v \<and> user_out ?s v \<le> 4 \<and>
         user_out ?s v \<noteq> f \<and> v < allocated ?s \<and>
         (nextinst ?s (UserT v) = 4 \<or> nextinst ?s (UserT v) = 5 \<and> UserT v \<in> set (wait ?s))"
    if "v \<in> set (queue ?s f)" for f v
  proof -
    from that assms(6) have m: "v \<in> set (queue s f)" by auto
    show ?thesis using P(1) [OF m] P(2) [of f] P(8) m assms(4) by (cases "v = u") auto
  qed
  show "v < allocated ?s \<and>
         (nextinst ?s (UserT v) = 5 \<and> UserT v \<notin> set (wait ?s) \<or>
          nextinst ?s (UserT v) = 6 \<and> UserT v \<in> set (wait ?s))"
    if "v \<in> set (elevator ?s)" for v
  proof -
    from that have m: "v \<in> set (elevator s)" by simp
    show ?thesis using P(5) [OF m] P(6) m assms(5) by (cases "v = u") auto
  qed
  show "v < allocated ?s \<and>
         (nextinst ?s (UserT v) = 5 \<longrightarrow>
            hd (wait ?s) = UserT v \<and> v \<in> set (queue ?s (floor ?s)) \<and> nextinst ?s ElevatorT = 4)"
    if "UserT v \<in> set (wait ?s)" for v
    using P(7) [of v] that by simp
qed

lemma sim_inv_intro:
  "inv_wait s \<Longrightarrow> inv_steps s \<Longrightarrow> inv_doors s \<Longrightarrow> inv_floor s \<Longrightarrow> inv_users s \<Longrightarrow> sim_inv s"
  by (simp add: sim_inv_def)

lemma U_other_ok:
  assumes "sim_inv (s\<lparr>wait := UserT u # wait s\<rparr>)"
    and "nextinst s (UserT u) \<noteq> 1" "nextinst s (UserT u) \<noteq> 5" "nextinst s (UserT u) \<noteq> 6"
  shows "sim_inv s"
proof -
  note p = pop_user [OF assms(1)]
  note P = users_popped [OF p(9,3)]
  have "inv_users (s\<lparr>queue := queue s\<rparr>)"
    using assms(2-) P(3) by (intro inv_users_after_pop [OF p(9,3)]) simp_all
  then show ?thesis
    using p by (intro sim_inv_intro) simp_all
qed

lemma U4_ok:
  assumes "sim_inv (s\<lparr>wait := UserT u # wait s\<rparr>)" "nextinst s (UserT u) = 4"
  shows "ok (U4 cfg u s) sim_inv"
proof -
  note p = pop_user [OF assms(1)]
  note P = users_popped [OF p(9,3)]
  let ?f = "user_in s u"
  have a: "sim_inv s"
    using assms by (intro U_other_ok [where s = s and u = u]) simp_all
  have "inv_users (s\<lparr>queue := (queue s)(?f := remove1 u (queue s ?f))\<rparr>)"
    using assms(2) P(3) by (intro inv_users_after_pop [OF p(9,3)]) (auto dest: notin_set_remove1)
  then have b: "sim_inv (s\<lparr>queue := (queue s)(?f := remove1 u (queue s ?f))\<rparr>)"
    using p by (intro sim_inv_intro) simp_all
  show ?thesis
    using a b P(3) by (simp add: U4_def std_erase_distinct)
qed

lemma U6_ok:
  assumes "sim_inv (s\<lparr>wait := UserT u # wait s\<rparr>)" "nextinst s (UserT u) = 6"
  shows "ok (U6 u s) sim_inv"
proof -
  note p = pop_user [OF assms(1)]
  note P = users_popped [OF p(9,3)]
  let ?s = "s\<lparr>elevator := remove1 u (elevator s)\<rparr>"
  have "inv_users ?s"
  proof (rule inv_usersI)
    show "\<And>f. distinct (queue ?s f)" using P(3) by simp
    show "distinct (elevator ?s)" using P(4) by simp
    show "\<exists>a. UserT a \<in> set (wait ?s) \<and> nextinst ?s (UserT a) = 1"
      using P(10) assms(2) by simp
    show "0 \<le> f \<and> f \<le> 4 \<and> user_in ?s v = f \<and> 0 \<le> user_out ?s v \<and> user_out ?s v \<le> 4 \<and>
         user_out ?s v \<noteq> f \<and> v < allocated ?s \<and>
         (nextinst ?s (UserT v) = 4 \<or> nextinst ?s (UserT v) = 5 \<and> UserT v \<in> set (wait ?s))"
      if "v \<in> set (queue ?s f)" for f v
    proof -
      from that have m: "v \<in> set (queue s f)" by simp
      show ?thesis using P(1) [OF m] P(2) [of f] m assms(2) by (cases "v = u") auto
    qed
    show "v < allocated ?s \<and>
         (nextinst ?s (UserT v) = 5 \<and> UserT v \<notin> set (wait ?s) \<or>
          nextinst ?s (UserT v) = 6 \<and> UserT v \<in> set (wait ?s))"
      if "v \<in> set (elevator ?s)" for v
    proof -
      from that P(4) have m: "v \<in> set (elevator s)" "v \<noteq> u" by auto
      show ?thesis using P(5) [OF m] by simp
    qed
    show "v < allocated ?s \<and>
         (nextinst ?s (UserT v) = 5 \<longrightarrow>
            hd (wait ?s) = UserT v \<and> v \<in> set (queue ?s (floor ?s)) \<and> nextinst ?s ElevatorT = 4)"
      if "UserT v \<in> set (wait ?s)" for v
      using P(7) [of v] that by simp
  qed
  then have "sim_inv ?s" using p by (intro sim_inv_intro) simp_all
  then show ?thesis using P(4) by (simp add: U6_def std_erase_distinct)
qed

subsection \<open>The rider: getting in\<close>

lemma more_calls_above: "more_calls s s' \<Longrightarrow> call_above s \<Longrightarrow> call_above s'"
  unfolding more_calls_def call_above_def list_ex_iff by auto

lemma more_calls_below: "more_calls s s' \<Longrightarrow> call_below s \<Longrightarrow> call_below s'"
  unfolding more_calls_def call_below_def list_ex_iff by auto

lemma inv_floor_more_calls:
  assumes "inv_floor s" "more_calls s s'"
  shows "inv_floor s'"
proof -
  have e: "floor s' = floor s" "state s' = state s" "nextinst s' ElevatorT = nextinst s ElevatorT"
    "anycall s (floor s) \<Longrightarrow> anycall s' (floor s)"
    using assms(2) by (auto simp: more_calls_def)
  note a = more_calls_above [OF assms(2)]
  note b = more_calls_below [OF assms(2)]
  show ?thesis
    using assms(1) a b e(4) unfolding inv_floor_def e(1,2,3) by blast
qed

lemma more_calls_raise [simp]:
  "more_calls s (s\<lparr>callcar := (callcar s)(j := True)\<rparr>)"
  "more_calls s (s\<lparr>callup := (callup s)(j := True)\<rparr>)"
  "more_calls s (s\<lparr>calldown := (calldown s)(j := True)\<rparr>)"
  by (simp_all add: more_calls_def anycall_def)

lemma call_above_at:
  "floor s < j \<Longrightarrow> j \<le> 4 \<Longrightarrow> 0 \<le> floor s \<Longrightarrow> callcar s j \<Longrightarrow> call_above s"
proof -
  assume a: "floor s < j" "j \<le> 4" "0 \<le> floor s" "callcar s j"
  then have "j \<in> set floors" by (auto simp: floors_def)
  then show ?thesis using a unfolding call_above_def list_ex_iff anycall_def by blast
qed

lemma call_below_at:
  "j < floor s \<Longrightarrow> 0 \<le> j \<Longrightarrow> floor s \<le> 4 \<Longrightarrow> callcar s j \<Longrightarrow> call_below s"
proof -
  assume a: "j < floor s" "0 \<le> j" "floor s \<le> 4" "callcar s j"
  then have "j \<in> set floors" by (auto simp: floors_def)
  then show ?thesis using a unfolding call_below_def list_ex_iff anycall_def by blast
qed

lemma inv_users_board:
  assumes "inv_users (s\<lparr>wait := UserT u # wait s\<rparr>)" "UserT u \<notin> set (wait s)"
    and "nextinst s (UserT u) = 5"
  shows "inv_users (s\<lparr>queue := (queue s)(user_in s u := remove1 u (queue s (user_in s u))),
                     elevator := u # elevator s\<rparr>)"
proof (rule inv_usersI)
  note P = users_popped [OF assms(1,2)]
  let ?q = "(queue s)(user_in s u := remove1 u (queue s (user_in s u)))"
  let ?s = "s\<lparr>queue := ?q, elevator := u # elevator s\<rparr>"
  have uq: "u \<in> set (queue s (floor s))" using P(9) assms(3) by simp
  have ui: "user_in s u = floor s" using P(2) [OF uq] by simp
  show "\<And>f. distinct (queue ?s f)" using P(3) by simp
  show "distinct (elevator ?s)" using P(4,6) assms(3) by auto
  show "\<exists>a. UserT a \<in> set (wait ?s) \<and> nextinst ?s (UserT a) = 1"
    using P(10) assms(3) by simp
  show "0 \<le> f \<and> f \<le> 4 \<and> user_in ?s v = f \<and> 0 \<le> user_out ?s v \<and> user_out ?s v \<le> 4 \<and>
         user_out ?s v \<noteq> f \<and> v < allocated ?s \<and>
         (nextinst ?s (UserT v) = 4 \<or> nextinst ?s (UserT v) = 5 \<and> UserT v \<in> set (wait ?s))"
    if "v \<in> set (queue ?s f)" for f v
  proof -
    from that have m: "v \<in> set (queue s f)"
      by (auto split: if_splits dest: set_remove1_subset [THEN subsetD])
    have "v \<noteq> u"
    proof
      assume "v = u"
      then have "f = user_in s u" using P(2) [of f] m by simp
      then show False using that P(3) [of f] \<open>v = u\<close> by simp
    qed
    then show ?thesis using P(1) [OF m] by simp
  qed
  show "v < allocated ?s \<and>
         (nextinst ?s (UserT v) = 5 \<and> UserT v \<notin> set (wait ?s) \<or>
          nextinst ?s (UserT v) = 6 \<and> UserT v \<in> set (wait ?s))"
    if "v \<in> set (elevator ?s)" for v
  proof (cases "v = u")
    case True
    then show ?thesis using P(8) assms(2,3) by simp
  next
    case False
    with that have m: "v \<in> set (elevator s)" by simp
    show ?thesis using P(5) [OF m False] by simp
  qed
  show "v < allocated ?s \<and>
         (nextinst ?s (UserT v) = 5 \<longrightarrow>
            hd (wait ?s) = UserT v \<and> v \<in> set (queue ?s (floor ?s)) \<and> nextinst ?s ElevatorT = 4)"
    if "UserT v \<in> set (wait ?s)" for v
    using P(7) [of v] that by simp
qed

lemma U5_ok:
  assumes "sim_inv (s\<lparr>wait := UserT u # wait s\<rparr>)" "nextinst s (UserT u) = 5"
  shows "ok (U5 u s) sim_inv"
proof -
  note p = pop_user [OF assms(1)]
  note P = users_popped [OF p(9,3)]
  let ?now = "nexttime s (UserT u)"
  let ?q = "(queue s)(user_in s u := remove1 u (queue s (user_in s u)))"
  let ?s0 = "s\<lparr>queue := ?q, elevator := u # elevator s\<rparr>"
  let ?s1 = "s\<lparr>queue := ?q, elevator := u # elevator s,
                callcar := (callcar s)(user_out s u := True)\<rparr>"
  have s1: "?s1 = ?s0\<lparr>callcar := (callcar ?s0)(user_out s u := True)\<rparr>" by simp
  have uq: "u \<in> set (queue s (floor s))" and e4: "nextinst s ElevatorT = 4"
    using P(9) assms(2) by simp_all
  note uf = P(2) [OF uq]
  have fl: "0 \<le> floor s" "floor s \<le> 4" using p(7) by (simp_all add: inv_floor_def)
  have f0: "inv_floor ?s0" using p(7) by simp
  have f1: "inv_floor ?s1"
    by (rule inv_floor_more_calls [OF f0]) (simp add: more_calls_def anycall_def)
  have u1: "inv_users ?s1" using inv_users_board [OF p(9,3) assms(2)] by simp
  have b: "sim_inv ?s1" using p f1 u1 by (intro sim_inv_intro) simp_all
  let ?d = "if user_in s u < user_out s u then GoingUp else GoingDown"
  let ?s' = "sched E5T 5 (?now + durationBeforeRapidDoorClose) (?s1\<lparr>state := ?d\<rparr>)"
  have a: "sim_inv ?s'"
  proof (intro sim_inv_intro)
    show "inv_wait ?s'" using p(4) by simp
    show "inv_steps ?s'" using p(5) e4 by (auto simp: inv_steps_def)
    show "inv_doors ?s'" using p(6) by (auto simp: inv_doors_def)
    show "inv_users ?s'" using u1 p(8) by (intro inv_users_sched_sys) simp_all
    have "call_above ?s1" if "user_in s u < user_out s u"
      using that uf fl by (intro call_above_at [where j = "user_out s u"]) simp_all
    moreover have "call_below ?s1" if "\<not> user_in s u < user_out s u"
      using that uf fl by (intro call_below_at [where j = "user_out s u"]) simp_all
    ultimately show "inv_floor ?s'"
      using f1 by (simp add: inv_floor_def)
  qed
  show ?thesis
    using a b P(3) p(4) by (simp add: U5_def Let_def std_erase_distinct ok_schedule)
qed

subsection \<open>The rider: arriving\<close>

lemma inv_floor_cong:
  assumes "floor s' = floor s" "state s' = state s" "callup s' = callup s"
    "calldown s' = calldown s" "callcar s' = callcar s"
    "nextinst s' ElevatorT = nextinst s ElevatorT"
  shows "inv_floor s' = inv_floor s"
  using assms by (simp add: inv_floor_def call_above_def call_below_def anycall_def)

lemma U1_fresh:
  fixes a b :: nat
  assumes "sim_inv (s\<lparr>wait := UserT u # wait s\<rparr>)" "nextinst s (UserT u) = 1" "0 \<le> d"
  defines "s2 \<equiv> sched (UserT (allocated s)) 1 (nexttime s (UserT u) + d)
                   (s\<lparr>rand_calls := a, knuth_i := b, allocated := allocated s + 1\<rparr>)"
  shows "sim_inv s2" "no_kicked s2" "after (nexttime s (UserT u)) s2"
    "UserT u \<notin> set (wait s2)" "nextinst s2 (UserT u) = 1" "u < allocated s2"
    "nexttime s2 (UserT u) = nexttime s (UserT u)"
proof -
  note p = pop_user [OF assms(1)]
  note P = users_popped [OF p(9,3)]
  let ?n = "allocated s"
  have ne: "u \<noteq> ?n" using P(8) by simp
  show k: "no_kicked s2" using p(8) by (simp add: s2_def)
  show "after (nexttime s (UserT u)) s2" using p(2) assms(3) by (simp add: s2_def)
  show "UserT u \<notin> set (wait s2)" using p(3) ne by (simp add: s2_def)
  show "nextinst s2 (UserT u) = 1" using assms(2) by (simp add: s2_def)
  show "u < allocated s2" using P(8) by (simp add: s2_def)
  show "nexttime s2 (UserT u) = nexttime s (UserT u)" using ne by (simp add: s2_def)
  show "sim_inv s2"
  proof (intro sim_inv_intro)
    show "inv_wait s2" using p(4) by (simp add: s2_def)
    show "inv_steps s2" using p(5) by (auto simp: s2_def inv_steps_def)
    show "inv_doors s2" using p(6) by (auto simp: s2_def inv_doors_def)
    show "inv_floor s2" using p(7) by (subst inv_floor_cong [of _ s]) (simp_all add: s2_def)
    show "inv_users s2"
    proof (rule inv_usersI)
      show "\<And>f. distinct (queue s2 f)" using P(3) by (simp add: s2_def)
      show "distinct (elevator s2)" using P(4) by (simp add: s2_def)
      show "\<exists>a. UserT a \<in> set (wait s2) \<and> nextinst s2 (UserT a) = 1"
        by (intro exI [of _ ?n]) (simp add: s2_def)
      show "0 \<le> f \<and> f \<le> 4 \<and> user_in s2 v = f \<and> 0 \<le> user_out s2 v \<and> user_out s2 v \<le> 4 \<and>
           user_out s2 v \<noteq> f \<and> v < allocated s2 \<and>
           (nextinst s2 (UserT v) = 4 \<or> nextinst s2 (UserT v) = 5 \<and> UserT v \<in> set (wait s2))"
        if "v \<in> set (queue s2 f)" for f v
      proof -
        from that have m: "v \<in> set (queue s f)" by (simp add: s2_def)
        have "v \<noteq> u" using P(2) [of f] m assms(2) by auto
        then show ?thesis using P(1) [OF m] by (auto simp: s2_def)
      qed
      show "v < allocated s2 \<and>
           (nextinst s2 (UserT v) = 5 \<and> UserT v \<notin> set (wait s2) \<or>
            nextinst s2 (UserT v) = 6 \<and> UserT v \<in> set (wait s2))"
        if "v \<in> set (elevator s2)" for v
      proof -
        from that have m: "v \<in> set (elevator s)" by (simp add: s2_def)
        have "v \<noteq> u" using P(6) m assms(2) by auto
        then show ?thesis using P(5) [OF m] by (auto simp: s2_def)
      qed
      show "v < allocated s2 \<and>
           (nextinst s2 (UserT v) = 5 \<longrightarrow>
              hd (wait s2) = UserT v \<and> v \<in> set (queue s2 (floor s2)) \<and> nextinst s2 ElevatorT = 4)"
        if "UserT v \<in> set (wait s2)" for v
        using P(7) [of v] that by (auto simp: s2_def)
    qed
  qed
qed

lemma U1_enqueue:
  assumes "sim_inv s" "no_kicked s" "UserT u \<notin> set (wait s)" "nextinst s (UserT u) = 1"
    "u < allocated s" "valid_info i"
  shows "sim_inv (sched (UserT u) 4 w
           (s\<lparr>user_in := (user_in s)(u := info_in i), user_out := (user_out s)(u := info_out i),
              queue := (queue s)(info_in i := queue s (info_in i) @ [u])\<rparr>))"
    (is "sim_inv ?s'")
proof (intro sim_inv_intro)
  have r: "inv_wait s" "inv_steps s" "inv_doors s" "inv_floor s" "inv_users s" "distinct (wait s)"
    using assms(1) by (auto simp: sim_inv_def inv_wait_def)
  note Q = users_queueD [OF r(5)]
  note E = users_elevD [OF r(5)]
  note W = users_waitD [OF r(5)]
  note D = users_distinctD [OF r(5)]
  have nq: "\<And>f. u \<notin> set (queue s f)" using Q(8) assms(4) by fastforce
  have ne: "u \<notin> set (elevator s)" using E(2) assms(4) by fastforce
  show "inv_wait ?s'" using r(6) by simp
  show "inv_steps ?s'" using r(2) by (auto simp: inv_steps_def)
  show "inv_doors ?s'" using r(3) by (auto simp: inv_doors_def)
  show "inv_floor ?s'" using r(4) by (subst inv_floor_cong [of _ s]) simp_all
  show "inv_users ?s'"
  proof (rule inv_usersI)
    show "\<And>f. distinct (queue ?s' f)" using D(1) nq by simp
    show "distinct (elevator ?s')" using D(2) by simp
    show "\<exists>a. UserT a \<in> set (wait ?s') \<and> nextinst ?s' (UserT a) = 1"
    proof -
      obtain a where a: "UserT a \<in> set (wait s)" "nextinst s (UserT a) = 1" using D(3) by blast
      then have "a \<noteq> u" using assms(3) by auto
      then show ?thesis using a by (intro exI [of _ a]) simp
    qed
    show "0 \<le> f \<and> f \<le> 4 \<and> user_in ?s' v = f \<and> 0 \<le> user_out ?s' v \<and> user_out ?s' v \<le> 4 \<and>
           user_out ?s' v \<noteq> f \<and> v < allocated ?s' \<and>
           (nextinst ?s' (UserT v) = 4 \<or> nextinst ?s' (UserT v) = 5 \<and> UserT v \<in> set (wait ?s'))"
      if "v \<in> set (queue ?s' f)" for f v
    proof (cases "v = u")
      case True
      then have "f = info_in i" using that nq by (auto split: if_splits)
      then show ?thesis using True assms(5,6) by (simp add: valid_info_def)
    next
      case False
      with that have m: "v \<in> set (queue s f)" by (auto split: if_splits)
      show ?thesis using Q [OF m] False by auto
    qed
    show "v < allocated ?s' \<and>
           (nextinst ?s' (UserT v) = 5 \<and> UserT v \<notin> set (wait ?s') \<or>
            nextinst ?s' (UserT v) = 6 \<and> UserT v \<in> set (wait ?s'))"
      if "v \<in> set (elevator ?s')" for v
    proof -
      from that have m: "v \<in> set (elevator s)" by simp
      then have "v \<noteq> u" using ne by auto
      then show ?thesis using E [OF m] by auto
    qed
    show "v < allocated ?s' \<and>
           (nextinst ?s' (UserT v) = 5 \<longrightarrow>
              hd (wait ?s') = UserT v \<and> v \<in> set (queue ?s' (floor ?s')) \<and> nextinst ?s' ElevatorT = 4)"
      if "UserT v \<in> set (wait ?s')" for v
    proof (cases "v = u")
      case True
      then show ?thesis using assms(5) by simp
    next
      case False
      with that have m: "UserT v \<in> set (wait s)" by simp
      show ?thesis using W(1) [OF m] assms(2) m False by (auto simp: no_kicked_def)
    qed
  qed
qed

subsection \<open>The rider: signalling\<close>

lemma U1_unfold:
  "U1 cfg u s =
     (let now = nexttime s (UserT u);
          info = fst (createNewUser cfg s);
          s1 = snd (createNewUser cfg s);
          fresh = allocated s1
      in and_then (schedule (UserT fresh) 1 (now + intertime info) (s1\<lparr>allocated := fresh + 1\<rparr>))
        (\<lambda>s2.
           if info_in info = info_out info then Inl U2SameFloor
           else and_then (U2_signal cfg info now s2)
             (\<lambda>s4.
                schedule (UserT u) 4 (now + giveuptime info)
                  (s4\<lparr>user_in := (user_in s4)(u := info_in info),
                      user_out := (user_out s4)(u := info_out info),
                      queue := (queue s4)(info_in info := queue s4 (info_in info) @ [u])\<rparr>))))"
  by (rule U1_def)

lemma U2_signal_ok:
  assumes "sim_inv s" "no_kicked s" "after now s"
  shows "ok (U2_signal cfg info now s) (\<lambda>s'. sim_inv s' \<and> no_kicked s' \<and> same_users s s')"
proof -
  have r: "inv_wait s" "inv_steps s" "inv_doors s" "inv_floor s" "inv_users s" "distinct (wait s)"
    using assms(1) by (auto simp: sim_inv_def inv_wait_def)
  let ?P = "\<lambda>s'. sim_inv s' \<and> no_kicked s' \<and> same_users s s'"
  have c1: "?P (simm ElevatorT 3 now s)" if "nextinst s ElevatorT = 6"
  proof -
    let ?s' = "simm ElevatorT 3 now s"
    have "sim_inv ?s'"
    proof (intro sim_inv_intro)
      show "inv_wait ?s'" using r(1) assms(3) by simp
      show "inv_steps ?s'" using r(2) that by (auto simp: inv_steps_def dest: notin_set_remove1)
      show "inv_doors ?s'" using r(3) that by (auto simp: inv_doors_def)
      show "inv_floor ?s'" using r(4) that by (simp add: inv_floor_def)
      show "inv_users ?s'" using r(5) assms(2) by (intro inv_users_simm_sys) simp_all
    qed
    then show ?thesis using assms(2) by simp
  qed
  have c2: "?P (simm ElevatorT 4 now (s\<lparr>d3 := False, d1 := True\<rparr>))" if "d3 s"
  proof -
    let ?s' = "simm ElevatorT 4 now (s\<lparr>d3 := False, d1 := True\<rparr>)"
    have e4: "nextinst s ElevatorT = 4" using r(3) that by (auto simp: inv_doors_def)
    have "sim_inv ?s'"
    proof (intro sim_inv_intro)
      show "inv_wait ?s'" using r(1) assms(3) by simp
      show "inv_steps ?s'" using r(2) e4 by (auto simp: inv_steps_def dest: notin_set_remove1)
      show "inv_doors ?s'" by (simp add: inv_doors_def)
      show "inv_floor ?s'" using r(4) e4 by (simp add: inv_floor_def)
      show "inv_users ?s'" using r(5) assms(2) by (intro inv_users_simm_sys) simp_all
    qed
    then show ?thesis using assms(2) by simp
  qed
  let ?s3 = "if info_in info < info_out info
             then s\<lparr>callup := (callup s)(info_in info := True)\<rparr>
             else s\<lparr>calldown := (calldown s)(info_in info := True)\<rparr>"
  have m: "more_calls s ?s3" by simp
  have s3: "sim_inv ?s3" "no_kicked ?s3" "after now ?s3" "same_users s ?s3"
    using r assms(2,3) inv_floor_more_calls [OF r(4) m]
    by (simp_all add: sim_inv_def)
  have su: "same_users s s'" if "same_users ?s3 s'" for s'
    using that by (simp add: same_users_def split: if_splits)
  have "ok (decision now False ?s3)
          (\<lambda>s'. sim_inv s' \<and> no_kicked s' \<and> after now s' \<and> same_users ?s3 s')"
    using s3 by (intro decision_ok) simp_all
  then have c3: "ok (decision now False ?s3) ?P"
    by (rule ok_mono) (use su in blast)
  have c4: "?P ?s3" using s3 by simp
  show ?thesis
    using c1 c2 c3 c4 r(1) assms(3)
    by (simp add: U2_signal_def Let_def ok_schedule_immediately)
qed

lemma U1_ok:
  assumes "sim_inv (s\<lparr>wait := UserT u # wait s\<rparr>)" "nextinst s (UserT u) = 1"
  shows "ok (U1 cfg u s) sim_inv"
proof -
  note p = pop_user [OF assms(1)]
  let ?now = "nexttime s (UserT u)"
  let ?info = "fst (createNewUser cfg s)"
  obtain a b where s1: "snd (createNewUser cfg s) = s\<lparr>rand_calls := a, knuth_i := b\<rparr>"
    using createNewUser_snd by blast
  have v: "valid_info ?info" by (rule createNewUser_valid)
  then have v': "info_in ?info \<noteq> info_out ?info" "0 \<le> intertime ?info"
    by (simp_all add: valid_info_def)
  let ?s2 = "sched (UserT (allocated s)) 1 (?now + intertime ?info)
               (s\<lparr>rand_calls := a, knuth_i := b, allocated := allocated s + 1\<rparr>)"
  note F = U1_fresh [OF assms v'(2), where a = a and b = b]
  let ?fin = "\<lambda>s4. schedule (UserT u) 4 (?now + giveuptime ?info)
                  (s4\<lparr>user_in := (user_in s4)(u := info_in ?info),
                      user_out := (user_out s4)(u := info_out ?info),
                      queue := (queue s4)(info_in ?info := queue s4 (info_in ?info) @ [u])\<rparr>)"
  have fin: "ok (?fin s4) sim_inv" if "sim_inv s4 \<and> no_kicked s4 \<and> same_users ?s2 s4" for s4
  proof -
    from that have su: "same_users ?s2 s4" and k: "no_kicked s4" and i: "sim_inv s4" by simp_all
    have 1: "UserT u \<notin> set (wait s4)" "nextinst s4 (UserT u) = 1" "u < allocated s4"
      using su F(4,5,6) by (simp_all add: same_users_def)
    have d: "distinct (wait s4)" using i by (simp add: sim_inv_def inv_wait_def)
    show ?thesis
      using U1_enqueue [OF i k 1 v] d by (simp add: ok_schedule)
  qed
  have "ok (U2_signal cfg ?info ?now ?s2) (\<lambda>s'. sim_inv s' \<and> no_kicked s' \<and> same_users ?s2 s')"
    using F(1,2,3) by (rule U2_signal_ok)
  then have "ok (U2_signal cfg ?info ?now ?s2) (\<lambda>s4. ok (?fin s4) sim_inv)"
    by (rule ok_mono) (rule fin)
  then show ?thesis
    using p(4) v'(1) by (simp add: U1_unfold Let_def s1 ok_schedule)
qed

subsection \<open>Every turn of the loop keeps the invariant\<close>

lemma ElevatorTask_resume_ok:
  assumes "sim_inv (s\<lparr>wait := ElevatorT # wait s\<rparr>)"
  shows "ok (ElevatorTask_resume cfg s) sim_inv"
proof -
  have r: "running ElevatorT s" using assms by (rule pop_running) simp
  have st: "nextinst s ElevatorT \<in> {1, 2, 3, 4, 6, 7, 71, 8, 81}"
    using assms by (simp add: sim_inv_def inv_steps_def)
  have d: "nextinst s ElevatorT = 4 \<Longrightarrow> d1 s"
    using assms by (simp add: sim_inv_def inv_doors_def)
  have j: "nextinst s ElevatorT = 3 \<Longrightarrow>
      (state s = GoingUp \<longrightarrow> call_above s) \<and> (state s = GoingDown \<longrightarrow> call_below s)"
    using running_facts(8) [OF r] by (simp add: inv_floor_def)
  consider "nextinst s ElevatorT = 1" | "nextinst s ElevatorT = 2" | "nextinst s ElevatorT = 3"
    | "nextinst s ElevatorT = 4" | "nextinst s ElevatorT = 6" | "nextinst s ElevatorT = 7"
    | "nextinst s ElevatorT = 71" | "nextinst s ElevatorT = 8" | "nextinst s ElevatorT = 81"
    using st by auto
  then show ?thesis
  proof cases
    case 1 then show ?thesis using E1_ok [OF r] by (simp add: ElevatorTask_resume_def)
  next
    case 2 then show ?thesis using E2_ok [OF r] by (simp add: ElevatorTask_resume_def)
  next
    case 3 then show ?thesis using E3_ok [OF r] j by (simp add: ElevatorTask_resume_def)
  next
    case 4 then show ?thesis using E4_ok [OF r] d by (simp add: ElevatorTask_resume_def)
  next
    case 5 then show ?thesis using E6_ok [OF r] by (simp add: ElevatorTask_resume_def)
  next
    case 6 then show ?thesis using E7_ok [OF r] by (simp add: ElevatorTask_resume_def)
  next
    case 7 then show ?thesis using E71_ok [OF r] by (simp add: ElevatorTask_resume_def)
  next
    case 8 then show ?thesis using E8_ok [OF r] by (simp add: ElevatorTask_resume_def)
  next
    case 9 then show ?thesis using E81_ok [OF r] by (simp add: ElevatorTask_resume_def)
  qed
qed

lemma UserTask_resume_ok:
  assumes "sim_inv (s\<lparr>wait := UserT u # wait s\<rparr>)"
  shows "ok (UserTask_resume cfg u s) sim_inv"
  using U1_ok [OF assms] U4_ok [OF assms] U5_ok [OF assms] U6_ok [OF assms] U_other_ok [OF assms]
  by (simp add: UserTask_resume_def)

lemma resume_ok:
  assumes "sim_inv (s\<lparr>wait := t # wait s\<rparr>)"
  shows "ok (resume cfg t s) sim_inv"
proof (cases t)
  case ElevatorT
  then show ?thesis using assms ElevatorTask_resume_ok by simp
next
  case E5T
  then have r: "running E5T s" using assms by (intro pop_running) simp_all
  have "nextinst s E5T = 5" "nextinst s ElevatorT = 4"
    using assms E5T by (simp_all add: sim_inv_def inv_steps_def)
  then show ?thesis using E5T E5_ok [OF r] by simp
next
  case E9T
  then have r: "running E9T s" using assms by (intro pop_running) simp_all
  have "nextinst s E9T = 9"
    using assms E9T by (simp add: sim_inv_def inv_steps_def)
  then show ?thesis using E9T E9_ok [OF r] by simp
next
  case (UserT u)
  then show ?thesis using assms UserTask_resume_ok by simp
qed

lemma step_ok:
  assumes "sim_inv s"
  shows "ok (step cfg s) sim_inv"
proof -
  have "wait s \<noteq> []" using assms by (auto simp: sim_inv_def inv_users_def)
  then obtain t ts where w: "wait s = t # ts" by (cases "wait s") auto
  then have "s = (s\<lparr>wait := ts\<rparr>)\<lparr>wait := t # wait (s\<lparr>wait := ts\<rparr>)\<rparr>" by simp
  then have "sim_inv ((s\<lparr>wait := ts\<rparr>)\<lparr>wait := t # wait (s\<lparr>wait := ts\<rparr>)\<rparr>)"
    using assms by simp
  then have "ok (resume cfg t (s\<lparr>wait := ts\<rparr>)) sim_inv" by (rule resume_ok)
  then show ?thesis using w by (simp add: step_def)
qed

lemma ctor_eq: "ElevatorSimulation_ctor = Inr sim_init"
  by (simp add: ElevatorSimulation_ctor_def sim_init_def schedule_eq sched_def members_init_def)

lemma sim_inv_init: "sim_inv sim_init"
proof (intro sim_inv_intro)
  show "inv_wait sim_init" by (simp add: sim_init_def members_init_def)
  show "inv_steps sim_init" by (simp add: sim_init_def members_init_def inv_steps_def)
  show "inv_doors sim_init" by (simp add: sim_init_def members_init_def inv_doors_def)
  show "inv_floor sim_init" by (simp add: sim_init_def members_init_def inv_floor_def)
  show "inv_users sim_init" by (simp add: sim_init_def members_init_def inv_users_def)
qed

lemma reachable_inv: "reachable cfg s \<Longrightarrow> sim_inv s"
proof (induction rule: reachable.induct)
  case (reach_init s)
  then have "s = sim_init" unfolding ctor_eq by (rule Inr_inject [symmetric])
  then show ?case using sim_inv_init by simp
next
  case (reach_step s s')
  then show ?case using step_ok [of s cfg] by (simp add: ok_iff)
qed

lemma reachable_step: "reachable cfg s \<Longrightarrow> \<exists>s'. step cfg s = Inr s' \<and> reachable cfg s'"
  using step_ok [OF reachable_inv, of cfg s cfg] by (auto simp: ok_iff intro: reachable.reach_step)

section \<open>The claims\<close>

subsection \<open>Evaluating concrete runs\<close>

lemmas eval_defs = step_def UserTask_resume_def ElevatorTask_resume_def E5Task_resume_def
  E9Task_resume_def U1_def U2_signal_def U4_def U5_def U6_def E1_def E2_def E3_def E4_def E6_def
  E7_def E71_def E8_def E81_def decision_def schedule_def schedule_immediately_def cancel_def
  std_erase_def stable_sort_def createNewUser_def random_between_def knuth_data_def
  elevator_is_available_def
  E6_clear_def E2_state_def passenger_wants_up_def passenger_wants_down_def waiter_wants_up_def
  waiter_wants_down_def should_stop_here_up_def should_stop_here_down_def leaver_def enterer_def
  floors_def durations Let_def sim_init_def members_init_def sched_def enqueue_def knuth_cfg_def
  home_cfg_def after_steps_def

lemma run_steps_numeral:
  "run_steps cfg (numeral k) s = and_then (step cfg s) (run_steps cfg (pred_numeral k))"
  by (simp add: numeral_eq_Suc)

lemma run_steps_one: "run_steps cfg 1 s = and_then (step cfg s) (run_steps cfg 0)"
  unfolding One_nat_def by simp

lemmas run_defs = eval_defs run_steps_numeral run_steps_one

lemma run_steps_reachable:
  "reachable cfg s \<Longrightarrow> \<exists>s'. run_steps cfg n s = Inr s' \<and> reachable cfg s'"
proof (induction n arbitrary: s)
  case 0
  then show ?case by simp
next
  case (Suc n)
  from reachable_step [OF Suc.prems] obtain s1 where
    s1: "step cfg s = Inr s1" "reachable cfg s1" by blast
  from Suc.IH [OF s1(2)] show ?case using s1(1) by simp
qed

lemma reachable_init: "reachable cfg sim_init"
  by (rule reachable.reach_init) (rule ctor_eq)

lemma reachable_after_steps: "reachable cfg (after_steps cfg n)"
  using run_steps_reachable [OF reachable_init, of cfg n] by (auto simp: after_steps_def)

subsection \<open>C1: the floor stays in range\<close>

lemma knuth_15:
  "nextinst (after_steps knuth_cfg 15) ElevatorT = 7" "floor (after_steps knuth_cfg 15) = 0"
  "hd (wait (after_steps knuth_cfg 15)) = ElevatorT"
  by (simp_all add: run_defs)

text \<open>
  C1. In every reachable state of a run the car's floor is within 0..4; whenever the car's
  next step is E7 (go up a floor) the floor is below 4, and whenever it is E8 (go down a
  floor) the floor is above 0, so that the bounds assertions of E7 and E8 never fail.
\<close>

theorem floor_in_range:
  assumes "reachable cfg s"
  shows "0 \<le> floor s \<and> floor s \<le> 4 \<and>
         (nextinst s ElevatorT = 7 \<longrightarrow> floor s < 4) \<and>
         (nextinst s ElevatorT = 8 \<longrightarrow> 0 < floor s) \<and>
         step cfg s \<noteq> Inl E7Top \<and> step cfg s \<noteq> Inl E8Bottom"
proof -
  have i: "inv_floor s" using reachable_inv [OF assms] by (simp add: sim_inv_def)
  have "floor s < 4" if "nextinst s ElevatorT = 7"
    using i that call_above_top [of s] by (auto simp: inv_floor_def)
  moreover have "0 < floor s" if "nextinst s ElevatorT = 8"
    using i that call_below_bottom [of s] by (auto simp: inv_floor_def)
  moreover have "step cfg s \<noteq> Inl E7Top" "step cfg s \<noteq> Inl E8Bottom"
    using reachable_step [OF assms] by auto
  ultimately show ?thesis using i by (simp add: inv_floor_def)
qed

text \<open>
  In Knuth's run the car is at floor 0 after fifteen turns of the loop, with E7 as the
  very next task.
\<close>

theorem floor_in_range_witness:
  "reachable knuth_cfg (after_steps knuth_cfg 15) \<and>
   hd (wait (after_steps knuth_cfg 15)) = ElevatorT \<and>
   nextinst (after_steps knuth_cfg 15) ElevatorT = 7 \<and>
   floor (after_steps knuth_cfg 15) = 0 \<and>
   floor (after_steps knuth_cfg 15) < 4 \<and>
   step knuth_cfg (after_steps knuth_cfg 15) \<noteq> Inl E7Top"
  using floor_in_range [OF reachable_after_steps, of knuth_cfg 15] knuth_15
  by (simp add: reachable_after_steps)

subsection \<open>C2: a Neutral decision in E6 happens at floor 2 only\<close>

lemma home_20:
  "wait (after_steps home_cfg 20) = [ElevatorT, E9T, UserT 1]"
  "nextinst (after_steps home_cfg 20) ElevatorT = 6"
  "floor (after_steps home_cfg 20) = 2"
  "state (after_steps home_cfg 20) = Neutral"
  by (simp_all add: run_defs)

lemma home_20_decision:
  "ok (decision (nexttime (after_steps home_cfg 20) ElevatorT) True
         (E6_clear (after_steps home_cfg 20\<lparr>wait := [E9T, UserT 1]\<rparr>)))
      (\<lambda>s1. state s1 = Neutral)"
  by (simp add: run_defs)

text \<open>
  C2. Whenever the elevator's step E6 is the next task of a reachable state, the decision
  subroutine it calls with the caller flag set returns, the step succeeds (no assertion
  of E6 fails), and if the direction after the decision is Neutral then the car is at
  floor 2 and goes back to its idle step E1 at once: the elevator task is put at the front
  of the pending sequence with resume point 1 and the same fire time.
\<close>

theorem E6_neutral_only_at_home:
  assumes "reachable cfg s" "wait s = ElevatorT # ts" "nextinst s ElevatorT = 6"
  shows "\<exists>s1 s'. decision (nexttime s ElevatorT) True (E6_clear (s\<lparr>wait := ts\<rparr>)) = Inr s1 \<and>
           step cfg s = Inr s' \<and>
           (state s1 = Neutral \<longrightarrow>
              floor s = 2 \<and> state s' = Neutral \<and> wait s' = ElevatorT # ts \<and>
              nextinst s' ElevatorT = 1 \<and> nexttime s' ElevatorT = nexttime s ElevatorT)"
proof -
  let ?m = "s\<lparr>wait := ts\<rparr>"
  let ?now = "nexttime s ElevatorT"
  let ?s1 = "(E6_clear ?m)\<lparr>state := E6_dir ?m\<rparr>"
  have "s = ?m\<lparr>wait := ElevatorT # wait ?m\<rparr>" using assms(2) by simp
  then have "sim_inv (?m\<lparr>wait := ElevatorT # wait ?m\<rparr>)"
    using reachable_inv [OF assms(1)] by simp
  then have r: "running ElevatorT ?m" by (rule pop_running) simp
  note f = running_facts [OF r]
  have d: "decision ?now True (E6_clear ?m) = Inr ?s1"
    using assms(3) by (intro E6_decision) simp
  have st: "step cfg s = E6 ?m"
    using assms(2,3) by (simp add: step_def ElevatorTask_resume_def)
  obtain s' where s': "step cfg s = Inr s'" using reachable_step [OF assms(1)] by blast
  have n: "floor s = 2 \<and> state s' = Neutral \<and> wait s' = ElevatorT # ts \<and>
      nextinst s' ElevatorT = 1 \<and> nexttime s' ElevatorT = ?now" if "E6_dir ?m = Neutral"
  proof -
    have j: "(state ?m = GoingUp \<longrightarrow> call_above ?m) \<and> (state ?m = GoingDown \<longrightarrow> call_below ?m)"
      using f(8) assms(3) by (simp add: inv_floor_def)
    have h: "floor s = 2" using E6_dir_facts(1) [OF j that] by simp
    have d1: "\<not> d1 s" using f(7) assms(3) by (simp add: inv_doors_def)
    have "E6 ?m = schedule_immediately ElevatorT 1 ?now ?s1"
      using d d1 that h f(5) by (simp add: E6_def Let_def)
    also have "\<dots> = Inr (simm ElevatorT 1 ?now ?s1)"
      using f(2,3,4) by (intro schedule_immediately_eq [folded simm_def])
        (simp_all add: inv_wait_def after_def)
    finally have "s' = simm ElevatorT 1 ?now ?s1" using st s' by simp
    then show ?thesis using h that f(5) by (simp add: remove1_idem)
  qed
  show ?thesis using d s' n by auto
qed

text \<open>
  Under \<open>home_cfg\<close> the car has come home after twenty turns: E6 is next, at floor 2, with no
  call outstanding, and the decision leaves the direction Neutral.
\<close>

theorem E6_neutral_only_at_home_witness:
  "reachable home_cfg (after_steps home_cfg 20) \<and>
   wait (after_steps home_cfg 20) = [ElevatorT, E9T, UserT 1] \<and>
   nextinst (after_steps home_cfg 20) ElevatorT = 6 \<and>
   (\<exists>s1 s'. decision (nexttime (after_steps home_cfg 20) ElevatorT) True
               (E6_clear (after_steps home_cfg 20\<lparr>wait := [E9T, UserT 1]\<rparr>)) = Inr s1 \<and>
            state s1 = Neutral \<and>
            step home_cfg (after_steps home_cfg 20) = Inr s' \<and>
            floor (after_steps home_cfg 20) = 2 \<and>
            wait s' = [ElevatorT, E9T, UserT 1] \<and> nextinst s' ElevatorT = 1)"
proof -
  from E6_neutral_only_at_home [OF reachable_after_steps home_20(1,2)]
  obtain s1 s' where
    a: "decision (nexttime (after_steps home_cfg 20) ElevatorT) True
          (E6_clear (after_steps home_cfg 20\<lparr>wait := [E9T, UserT 1]\<rparr>)) = Inr s1"
      "step home_cfg (after_steps home_cfg 20) = Inr s'"
      "state s1 = Neutral \<longrightarrow>
         floor (after_steps home_cfg 20) = 2 \<and> state s' = Neutral \<and>
         wait s' = [ElevatorT, E9T, UserT 1] \<and> nextinst s' ElevatorT = 1 \<and>
         nexttime s' ElevatorT = nexttime (after_steps home_cfg 20) ElevatorT"
    by blast
  have "state s1 = Neutral" using home_20_decision a(1) by simp
  then show ?thesis using a home_20(1,2) reachable_after_steps by blast
qed

subsection \<open>C3: schedule orders by fire time, and stably\<close>

lemma sort_key_snoc:
  "sorted (map f xs) \<Longrightarrow>
   sort_key f (xs @ [t]) =
     takeWhile (\<lambda>x. f x \<le> f t) xs @ t # dropWhile (\<lambda>x. f x \<le> f t) xs"
proof (induction xs)
  case Nil
  then show ?case by simp
next
  case (Cons a xs)
  then have IH: "sort_key f (xs @ [t]) =
      takeWhile (\<lambda>x. f x \<le> f t) xs @ t # dropWhile (\<lambda>x. f x \<le> f t) xs"
    and le: "\<forall>x\<in>set xs. f a \<le> f x" by simp_all
  show ?case
  proof (cases "f a \<le> f t")
    case True
    have "\<forall>z\<in>set (sort_key f (xs @ [t])). f a \<le> f z" using le True by auto
    then have "sort_key f (a # xs @ [t]) = a # sort_key f (xs @ [t])"
      by (simp add: insort_key_front)
    then show ?thesis using True IH by simp
  next
    case False
    then have "\<forall>x\<in>set xs. \<not> f x \<le> f t" using le by fastforce
    then have tw: "takeWhile (\<lambda>x. f x \<le> f t) xs = []" "dropWhile (\<lambda>x. f x \<le> f t) xs = xs"
      by (cases xs; simp)+
    have "sort_key f (a # xs @ [t]) = insort_key f a (t # xs)" using IH tw by simp
    also have "\<dots> = t # a # xs" using False le by (simp add: insort_key_front)
    finally show ?thesis using False by simp
  qed
qed

lemma remove1_count_le1: "count_list xs t \<le> 1 \<Longrightarrow> t \<notin> set (remove1 t xs)"
proof (induction xs)
  case Nil
  then show ?case by simp
next
  case (Cons a xs)
  then show ?case by (cases "a = t") (auto simp: count_list_0_iff)
qed

lemma demo_schedule:
  "ok (schedule ElevatorT 4 20 demo_wait) (\<lambda>s'. wait s' = [UserT 0, E5T, ElevatorT, E9T])"
  by (simp add: demo_wait_def members_init_def schedule_def std_erase_def stable_sort_def)

text \<open>
  C3. A call of \<open>schedule\<close> on a task that is pending at most once returns; afterwards the
  task has the given resume point and fire time, the pending sequence is ordered by fire
  time, and for every fire time the tasks that fire then stand in the order they had
  before with the scheduled task last, so that a task scheduled earlier precedes one
  scheduled later (rescheduling counts anew). When the other pending tasks were ordered by
  fire time, the task stands right after those that fire no later than it does.
\<close>

theorem schedule_orders_stably:
  assumes "count_list (wait s) t \<le> 1"
  shows "\<exists>s'. schedule t i w s = Inr s' \<and> nextinst s' t = i \<and> nexttime s' t = w \<and>
           sorted (map (nexttime s') (wait s')) \<and>
           set (wait s') = insert t (set (wait s)) \<and>
           (\<forall>k. filter (\<lambda>x. nexttime s' x = k) (wait s') =
                filter (\<lambda>x. nexttime s' x = k) (remove1 t (wait s) @ [t])) \<and>
           (sorted (map (nexttime s) (remove1 t (wait s))) \<longrightarrow>
              wait s' = takeWhile (\<lambda>x. nexttime s x \<le> w) (remove1 t (wait s)) @
                        t # dropWhile (\<lambda>x. nexttime s x \<le> w) (remove1 t (wait s)))"
proof -
  let ?r = "remove1 t (wait s)"
  let ?tm = "(nexttime s)(t := w)"
  let ?s' = "s\<lparr>nextinst := (nextinst s)(t := i), nexttime := ?tm,
               wait := sort_key ?tm (?r @ [t])\<rparr>"
  have e: "schedule t i w s = Inr ?s'"
    using assms by (simp add: schedule_def std_erase_def stable_sort_def)
  have nt: "t \<notin> set ?r" using assms by (rule remove1_count_le1)
  have st: "set (sort_key ?tm (?r @ [t])) = insert t (set (wait s))"
    using set_enqueue [of ?tm t "wait s"] by (simp add: enqueue_def)
  have pos: "sort_key ?tm (?r @ [t]) =
      takeWhile (\<lambda>x. nexttime s x \<le> w) ?r @ t # dropWhile (\<lambda>x. nexttime s x \<le> w) ?r"
    if "sorted (map (nexttime s) ?r)"
  proof -
    have m: "map ?tm ?r = map (nexttime s) ?r" using nt by (rule map_upd_notin)
    have c: "takeWhile (\<lambda>x. ?tm x \<le> ?tm t) ?r = takeWhile (\<lambda>x. nexttime s x \<le> w) ?r"
      "dropWhile (\<lambda>x. ?tm x \<le> ?tm t) ?r = dropWhile (\<lambda>x. nexttime s x \<le> w) ?r"
      using nt by (auto intro!: takeWhile_cong dropWhile_cong)
    have "sorted (map ?tm ?r)" using that unfolding m .
    from sort_key_snoc [OF this, of t] show ?thesis using c by simp
  qed
  have f: "nexttime ?s' = ?tm" "wait ?s' = sort_key ?tm (?r @ [t])" "nextinst ?s' t = i"
    by simp_all
  have stab: "filter (\<lambda>x. nexttime ?s' x = k) (wait ?s') =
      filter (\<lambda>x. nexttime ?s' x = k) (?r @ [t])" for k
    unfolding f by (rule sort_key_stable)
  have "nexttime ?s' t = w" "sorted (map (nexttime ?s') (wait ?s'))"
    "set (wait ?s') = insert t (set (wait s))"
    "sorted (map (nexttime s) ?r) \<longrightarrow>
       wait ?s' = takeWhile (\<lambda>x. nexttime s x \<le> w) ?r @ t # dropWhile (\<lambda>x. nexttime s x \<le> w) ?r"
    using st pos unfolding f by simp_all
  then show ?thesis
    using e f(3) stab by blast
qed

text \<open>
  Scheduling the elevator at time 20 puts it behind the door-close task, which was
  scheduled earlier for the same time.
\<close>

theorem schedule_orders_stably_witness:
  "count_list (wait demo_wait) ElevatorT \<le> 1 \<and>
   nexttime demo_wait E5T = 20 \<and>
   (\<exists>s'. schedule ElevatorT 4 20 demo_wait = Inr s' \<and>
         sorted (map (nexttime s') (wait s')) \<and>
         wait s' = [UserT 0, E5T, ElevatorT, E9T])"
proof -
  have c: "count_list (wait demo_wait) ElevatorT \<le> 1" "nexttime demo_wait E5T = 20"
    by (simp_all add: demo_wait_def members_init_def)
  from schedule_orders_stably [OF c(1), of 4 20]
  obtain s' where s': "schedule ElevatorT 4 20 demo_wait = Inr s'"
    "sorted (map (nexttime s') (wait s'))" by blast
  then have "wait s' = [UserT 0, E5T, ElevatorT, E9T]" using demo_schedule by simp
  then show ?thesis using c s' by blast
qed

subsection \<open>C4: schedule_immediately puts the task in front, if that keeps the order\<close>

lemma demo_immediately:
  "ok (schedule_immediately ElevatorT 3 10 demo_wait)
     (\<lambda>s'. wait s' = [ElevatorT, UserT 0, E5T, E9T] \<and> nexttime s' (UserT 0) = 10)"
  by (simp add: demo_wait_def members_init_def schedule_immediately_def std_erase_def)

text \<open>
  A call with a fire time later than that of a pending task does not put the task in
  front to be popped next: the assertion after \<^verbatim>\<open>push_front\<close> fails and the program aborts.
\<close>

theorem schedule_immediately_late_counterexample:
  "schedule_immediately ElevatorT 3 50 demo_wait = Inl PushFrontUnsorted"
  by (simp add: demo_wait_def members_init_def schedule_immediately_def std_erase_def)

text \<open>
  C4, as amended. Take a call of \<open>schedule_immediately\<close> on a task pending at most once.
  If the pending sequence is ordered by fire time and the fire time given is no later than
  that of any other pending task, the call returns; afterwards the task is at the very
  front of the pending sequence, ahead of the tasks that share its fire time, with the given
  resume point and fire time, and the next turn of the loop pops and resumes it. If the fire
  time given is later than that of some other pending task, the assertion after
  \<^verbatim>\<open>push_front\<close> fails and the program aborts.
\<close>

theorem schedule_immediately_front:
  assumes "count_list (wait s) t \<le> 1"
  shows "(sorted (map (nexttime s) (wait s)) \<and>
          (\<forall>x\<in>set (wait s). x \<noteq> t \<longrightarrow> w \<le> nexttime s x) \<longrightarrow>
            (\<exists>s'. schedule_immediately t i w s = Inr s' \<and>
               wait s' = t # remove1 t (wait s) \<and> nextinst s' t = i \<and> nexttime s' t = w \<and>
               step cfg s' = resume cfg t (s'\<lparr>wait := remove1 t (wait s)\<rparr>))) \<and>
         ((\<exists>x\<in>set (wait s). x \<noteq> t \<and> nexttime s x < w) \<longrightarrow>
            schedule_immediately t i w s = Inl PushFrontUnsorted)"
proof (intro conjI impI)
  let ?r = "remove1 t (wait s)"
  let ?tm = "(nexttime s)(t := w)"
  let ?s' = "s\<lparr>nextinst := (nextinst s)(t := i), nexttime := ?tm, wait := t # ?r\<rparr>"
  have nt: "t \<notin> set ?r" using assms by (rule remove1_count_le1)
  have m: "map ?tm ?r = map (nexttime s) ?r" using nt by (rule map_upd_notin)
  {
    assume a: "sorted (map (nexttime s) (wait s)) \<and>
               (\<forall>x\<in>set (wait s). x \<noteq> t \<longrightarrow> w \<le> nexttime s x)"
    then have "sorted (map (nexttime s) ?r)" by (simp add: sorted_map_remove1)
    moreover have "\<forall>x\<in>set ?r. w \<le> nexttime s x"
      using a nt by (metis notin_set_remove1)
    ultimately have "sorted (map ?tm (t # ?r))" unfolding list.map m by simp
    then have "schedule_immediately t i w s = Inr ?s'"
      using assms by (simp add: schedule_immediately_def std_erase_def is_sorted_iff)
    moreover have "step cfg ?s' = resume cfg t (?s'\<lparr>wait := ?r\<rparr>)"
      by (simp add: step_def)
    ultimately show "\<exists>s'. schedule_immediately t i w s = Inr s' \<and>
               wait s' = t # remove1 t (wait s) \<and> nextinst s' t = i \<and> nexttime s' t = w \<and>
               step cfg s' = resume cfg t (s'\<lparr>wait := remove1 t (wait s)\<rparr>)"
      by (intro exI [of _ ?s']) simp
  }
  {
    assume "\<exists>x\<in>set (wait s). x \<noteq> t \<and> nexttime s x < w"
    then obtain x where x: "x \<in> set (wait s)" "x \<noteq> t" "nexttime s x < w" by blast
    then have "x \<in> set ?r" by simp
    then have "\<not> (\<forall>y\<in>set ?r. w \<le> nexttime s y)" using x(3) by force
    then have "\<not> sorted (map ?tm (t # ?r))" unfolding list.map m by simp
    then have "\<not> is_sorted ?tm (t # ?r)" unfolding is_sorted_iff .
    moreover have "schedule_immediately t i w s =
        (if is_sorted ?tm (t # ?r) then Inr ?s' else Inl PushFrontUnsorted)"
      using assms by (simp add: schedule_immediately_def std_erase_def)
    ultimately show "schedule_immediately t i w s = Inl PushFrontUnsorted"
      by (simp only: if_False)
  }
qed

text \<open>
  Immediately scheduling the elevator at time 10 puts it ahead of the rider that was
  pending for time 10; at time 11 the call aborts, and so does rescheduling the pending
  task \<open>E9T\<close> for time 25.
\<close>

theorem schedule_immediately_front_witness:
  "count_list (wait demo_wait) ElevatorT \<le> 1 \<and>
   map (nexttime demo_wait) (wait demo_wait) = [10, 20, 30] \<and>
   (\<exists>s'. schedule_immediately ElevatorT 3 10 demo_wait = Inr s' \<and>
         wait s' = [ElevatorT, UserT 0, E5T, E9T] \<and>
         nexttime s' ElevatorT = 10 \<and> nexttime s' (UserT 0) = 10 \<and>
         step knuth_cfg s' = resume knuth_cfg ElevatorT (s'\<lparr>wait := [UserT 0, E5T, E9T]\<rparr>)) \<and>
   schedule_immediately ElevatorT 3 11 demo_wait = Inl PushFrontUnsorted \<and>
   schedule_immediately E9T 9 25 demo_wait = Inl PushFrontUnsorted"
proof -
  have c: "count_list (wait demo_wait) ElevatorT \<le> 1"
    "sorted (map (nexttime demo_wait) (wait demo_wait))"
    "\<forall>x\<in>set (wait demo_wait). x \<noteq> ElevatorT \<longrightarrow> 10 \<le> nexttime demo_wait x"
    "remove1 ElevatorT (wait demo_wait) = [UserT 0, E5T, E9T]"
    "map (nexttime demo_wait) (wait demo_wait) = [10, 20, 30]"
    "\<exists>x\<in>set (wait demo_wait). x \<noteq> ElevatorT \<and> nexttime demo_wait x < 11"
    "count_list (wait demo_wait) E9T \<le> 1"
    "\<exists>x\<in>set (wait demo_wait). x \<noteq> E9T \<and> nexttime demo_wait x < 25"
    by (simp_all add: demo_wait_def members_init_def)
  from schedule_immediately_front [OF c(1), of 10 3 knuth_cfg] c(2,3)
  obtain s' where s': "schedule_immediately ElevatorT 3 10 demo_wait = Inr s'"
    "wait s' = ElevatorT # remove1 ElevatorT (wait demo_wait)" "nexttime s' ElevatorT = 10"
    "step knuth_cfg s' =
       resume knuth_cfg ElevatorT (s'\<lparr>wait := remove1 ElevatorT (wait demo_wait)\<rparr>)"
    by blast
  have "nexttime s' (UserT 0) = 10" using demo_immediately s'(1) by simp
  then have 1: "\<exists>s'. schedule_immediately ElevatorT 3 10 demo_wait = Inr s' \<and>
         wait s' = [ElevatorT, UserT 0, E5T, E9T] \<and>
         nexttime s' ElevatorT = 10 \<and> nexttime s' (UserT 0) = 10 \<and>
         step knuth_cfg s' = resume knuth_cfg ElevatorT (s'\<lparr>wait := [UserT 0, E5T, E9T]\<rparr>)"
    using c(4) s' by (intro exI [of _ s']) simp_all
  have 2: "schedule_immediately ElevatorT 3 11 demo_wait = Inl PushFrontUnsorted"
    using schedule_immediately_front [OF c(1), of 11 3 knuth_cfg] c(6) by blast
  have 3: "schedule_immediately E9T 9 25 demo_wait = Inl PushFrontUnsorted"
    using schedule_immediately_front [OF c(7), of 25 9 knuth_cfg] c(8) by blast
  show ?thesis using c(1,5) 1 2 3 by blast
qed

subsection \<open>C5: a task is pending at most once\<close>

lemma distinct_count_list: "distinct xs \<Longrightarrow> x \<in> set xs \<Longrightarrow> count_list xs x = 1"
  by (induction xs) auto

lemma schedule_immediately_wait:
  assumes "schedule_immediately t i w s = Inr s'"
  shows "wait s' = t # remove1 t (wait s)" "count_list (wait s) t \<le> 1"
proof -
  have c: "count_list (wait s) t \<le> 1"
    using assms by (cases "count_list (wait s) t \<le> 1")
      (simp_all add: schedule_immediately_def std_erase_def)
  show "count_list (wait s) t \<le> 1" by (rule c)
  show "wait s' = t # remove1 t (wait s)"
    using assms c
    by (cases "is_sorted ((nexttime s)(t := w)) (t # remove1 t (wait s))")
      (auto simp: schedule_immediately_def std_erase_def)
qed

lemma knuth_2: "wait (after_steps knuth_cfg 2) = [ElevatorT, UserT 1, UserT 0]"
  by (simp add: run_defs)

text \<open>
  C5. In every reachable state no task occurs twice in the pending sequence. From any state
  in which no task is pending twice, \<open>schedule\<close> returns, \<open>schedule_immediately\<close> when it
  returns, and \<open>cancel\<close> returns, each with no task pending twice; the task scheduled is
  then pending exactly once, also when it was pending before, and the task cancelled is
  not pending.
\<close>

theorem pending_at_most_once:
  "(reachable cfg s \<longrightarrow> distinct (wait s)) \<and>
   (distinct (wait s) \<longrightarrow>
      (\<exists>s'. schedule t i w s = Inr s' \<and> distinct (wait s') \<and> count_list (wait s') t = 1) \<and>
      (\<forall>s'. schedule_immediately t i w s = Inr s' \<longrightarrow>
           distinct (wait s') \<and> count_list (wait s') t = 1) \<and>
      (\<exists>s'. cancel t s = Inr s' \<and> distinct (wait s') \<and> t \<notin> set (wait s')))"
proof -
  have 1: "distinct (wait s)" if "reachable cfg s"
    using reachable_inv [OF that] by (simp add: sim_inv_def inv_wait_def)
  have 2: "\<exists>s'. schedule t i w s = Inr s' \<and> distinct (wait s') \<and> count_list (wait s') t = 1"
    if d: "distinct (wait s)"
  proof -
    have "distinct (wait (sched t i w s))" "t \<in> set (wait (sched t i w s))"
      using d by simp_all
    then have "count_list (wait (sched t i w s)) t = 1" "distinct (wait (sched t i w s))"
      by (simp_all add: distinct_count_list)
    then show ?thesis using schedule_eq [OF d, folded sched_def] by blast
  qed
  have 3: "distinct (wait s') \<and> count_list (wait s') t = 1"
    if d: "distinct (wait s)" and e: "schedule_immediately t i w s = Inr s'" for s'
  proof -
    have w: "wait s' = t # remove1 t (wait s)" using e by (rule schedule_immediately_wait)
    have "distinct (wait s')" using d w by simp
    moreover have "t \<in> set (wait s')" using w by simp
    ultimately show ?thesis by (simp add: distinct_count_list)
  qed
  have 4: "\<exists>s'. cancel t s = Inr s' \<and> distinct (wait s') \<and> t \<notin> set (wait s')"
    if d: "distinct (wait s)"
    using d cancel_eq [OF d] by simp
  show ?thesis using 1 2 3 4 by blast
qed

text \<open>
  After two turns of Knuth's run the next rider is pending; scheduling it again leaves it
  pending once.
\<close>

theorem pending_at_most_once_witness:
  "reachable knuth_cfg (after_steps knuth_cfg 2) \<and>
   wait (after_steps knuth_cfg 2) = [ElevatorT, UserT 1, UserT 0] \<and>
   distinct (wait (after_steps knuth_cfg 2)) \<and>
   (\<exists>s'. schedule (UserT 1) 1 500 (after_steps knuth_cfg 2) = Inr s' \<and>
         count_list (wait s') (UserT 1) = 1) \<and>
   (\<exists>s'. cancel (UserT 1) (after_steps knuth_cfg 2) = Inr s' \<and> UserT 1 \<notin> set (wait s'))"
proof -
  note r = reachable_after_steps [of knuth_cfg 2]
  note p = pending_at_most_once [of knuth_cfg "after_steps knuth_cfg 2" "UserT 1" 1 500]
  from p r have d: "distinct (wait (after_steps knuth_cfg 2))" by blast
  with p have "\<exists>s'. schedule (UserT 1) 1 500 (after_steps knuth_cfg 2) = Inr s' \<and>
         distinct (wait s') \<and> count_list (wait s') (UserT 1) = 1"
    and "\<exists>s'. cancel (UserT 1) (after_steps knuth_cfg 2) = Inr s' \<and> distinct (wait s') \<and>
         UserT 1 \<notin> set (wait s')"
    by blast+
  then show ?thesis using r d knuth_2 by blast
qed

subsection \<open>C6: E2 re-evaluates the direction\<close>

lemma knuth_10:
  "wait (after_steps knuth_cfg 10) = [ElevatorT, UserT 4, UserT 1, UserT 2, UserT 3]"
  "nextinst (after_steps knuth_cfg 10) ElevatorT = 2"
  "state (after_steps knuth_cfg 10) = GoingDown"
  "floor (after_steps knuth_cfg 10) = 0"
  "calldown (after_steps knuth_cfg 10) 2"
  "calldown (after_steps knuth_cfg 10) 4"
  "queue (after_steps knuth_cfg 10) 4 = [1]"
  "waiter_wants_up (after_steps knuth_cfg 10)"
  "\<not> passenger_wants_up (after_steps knuth_cfg 10)"
  "\<not> passenger_wants_down (after_steps knuth_cfg 10)"
  "\<not> waiter_wants_down (after_steps knuth_cfg 10)"
  "state (after_steps knuth_cfg 11) = Neutral"
  by (simp_all add: run_defs)

text \<open>
  C6 as stated fails. After ten turns of Knuth's run the car is at floor 0 going down and it
  is the elevator's turn at E2: no call is outstanding below, riders wait at floors 2 and 4
  with their down buttons pressed, and no car button is pressed. E2 does not turn the car
  upwards: it makes it Neutral.
\<close>

theorem E2_waiter_above_counterexample:
  "wait (after_steps knuth_cfg 10) = [ElevatorT, UserT 4, UserT 1, UserT 2, UserT 3] \<and>
   nextinst (after_steps knuth_cfg 10) ElevatorT = 2 \<and>
   state (after_steps knuth_cfg 10) = GoingDown \<and> floor (after_steps knuth_cfg 10) = 0 \<and>
   \<not> passenger_wants_down (after_steps knuth_cfg 10) \<and>
   \<not> waiter_wants_down (after_steps knuth_cfg 10) \<and>
   calldown (after_steps knuth_cfg 10) 4 \<and> queue (after_steps knuth_cfg 10) 4 = [1] \<and>
   waiter_wants_up (after_steps knuth_cfg 10) \<and>
   E2_state (after_steps knuth_cfg 10) = Neutral \<and>
   state (after_steps knuth_cfg 11) = Neutral"
  using knuth_10 by (simp add: E2_state_def)

lemma passenger_wants_up_iff:
  "passenger_wants_up s = (\<exists>j\<in>set floors. floor s < j \<and> callcar s j)"
proof -
  have "\<And>j P. (j \<noteq> floor s \<and> P \<and> j > floor s) = (floor s < j \<and> P)"
    by auto
  then show ?thesis unfolding passenger_wants_up_def list_ex_iff by simp
qed

lemma passenger_wants_down_iff:
  "passenger_wants_down s = (\<exists>j\<in>set floors. j < floor s \<and> callcar s j)"
proof -
  have "\<And>j P. (j \<noteq> floor s \<and> P \<and> \<not> j > floor s) = (j < floor s \<and> P)"
    by auto
  then show ?thesis unfolding passenger_wants_down_def list_ex_iff by simp
qed

lemma call_above_iff:
  "call_above s = (\<exists>j\<in>set floors. floor s < j \<and> (callcar s j \<or> callup s j \<or> calldown s j))"
  unfolding call_above_def list_ex_iff anycall_def by auto

lemma call_below_iff:
  "call_below s = (\<exists>j\<in>set floors. j < floor s \<and> (callcar s j \<or> callup s j \<or> calldown s j))"
  unfolding call_below_def list_ex_iff anycall_def by auto

text \<open>
  C6, amended: E2 ends in E3 with the direction re-evaluated as follows. If the car is going
  up and no car, up or down call is outstanding on a floor strictly above it, the direction
  becomes GoingDown when a car button is pressed for a floor strictly below, and Neutral
  otherwise: the up and down buttons below do not count. Symmetrically when it is going
  down with no call strictly below. In every other case E2 leaves the direction as it is.
\<close>

theorem E2_direction:
  "E2 s = E3 (s\<lparr>state := E2_state s\<rparr>) \<and>
   (state s = GoingUp \<and>
    \<not> (\<exists>j\<in>set floors. floor s < j \<and> (callcar s j \<or> callup s j \<or> calldown s j)) \<longrightarrow>
      E2_state s = (if \<exists>j\<in>set floors. j < floor s \<and> callcar s j then GoingDown else Neutral)) \<and>
   (state s = GoingDown \<and>
    \<not> (\<exists>j\<in>set floors. j < floor s \<and> (callcar s j \<or> callup s j \<or> calldown s j)) \<longrightarrow>
      E2_state s = (if \<exists>j\<in>set floors. floor s < j \<and> callcar s j then GoingUp else Neutral)) \<and>
   (state s = GoingUp \<and>
    (\<exists>j\<in>set floors. floor s < j \<and> (callcar s j \<or> callup s j \<or> calldown s j)) \<longrightarrow>
      E2_state s = GoingUp) \<and>
   (state s = GoingDown \<and>
    (\<exists>j\<in>set floors. j < floor s \<and> (callcar s j \<or> callup s j \<or> calldown s j)) \<longrightarrow>
      E2_state s = GoingDown) \<and>
   (state s = Neutral \<longrightarrow> E2_state s = Neutral)"
  unfolding call_above_iff [symmetric] call_below_iff [symmetric]
    passenger_wants_up_iff [symmetric] passenger_wants_down_iff [symmetric]
  using wants_up_iff [of s] wants_down_iff [of s]
  by (auto simp: E2_def E2_state_def)

text \<open>
  Going up at floor 2 with the car button of floor 0 pressed, E2 turns the car downwards; in
  the state of Knuth's run above it makes it Neutral.
\<close>

theorem E2_direction_witness:
  "state demo_passenger_below = GoingUp \<and> floor demo_passenger_below = 2 \<and>
   callcar demo_passenger_below 0 \<and> E2_state demo_passenger_below = GoingDown \<and>
   state (after_steps knuth_cfg 10) = GoingDown \<and> calldown (after_steps knuth_cfg 10) 4 \<and>
   E2_state (after_steps knuth_cfg 10) = Neutral"
proof -
  let ?k = "after_steps knuth_cfg 10"
  have a: "state demo_passenger_below = GoingUp" "floor demo_passenger_below = 2"
    "callcar demo_passenger_below 0"
    "\<not> (\<exists>j\<in>set floors. floor demo_passenger_below < j \<and>
          (callcar demo_passenger_below j \<or> callup demo_passenger_below j \<or>
           calldown demo_passenger_below j))"
    "\<exists>j\<in>set floors. j < floor demo_passenger_below \<and> callcar demo_passenger_below j"
    by (simp_all add: demo_passenger_below_def members_init_def floors_def)
  have b: "\<not> (\<exists>j\<in>set floors. j < floor ?k \<and> (callcar ?k j \<or> callup ?k j \<or> calldown ?k j))"
    "\<not> (\<exists>j\<in>set floors. floor ?k < j \<and> callcar ?k j)"
    using knuth_10(9,10,11) wants_down_iff [of ?k]
    unfolding call_below_iff passenger_wants_up_iff by simp_all
  have "E2_state demo_passenger_below = GoingDown"
    using E2_direction [of demo_passenger_below] a by simp
  moreover have "E2_state ?k = Neutral"
    using E2_direction [of ?k] b knuth_10(3) by simp
  ultimately show ?thesis using a(1,2,3) knuth_10(3,6) by simp
qed


subsection \<open>C7: the two door flags exclude each other\<close>

text \<open>
  C7: in every reachable state \<^verbatim>\<open>d1_\<close> (doors open, people moving) and \<^verbatim>\<open>d3_\<close> (doors
  open, nobody moving) are not both true; and both are false unless the elevator's next step
  is E4, so that E3, which sets \<^verbatim>\<open>d1_\<close> and leaves \<^verbatim>\<open>d3_\<close> alone, runs with \<^verbatim>\<open>d3_\<close> false.
\<close>

theorem doors_flags_exclusive:
  assumes "reachable cfg s"
  shows "\<not> (d1 s \<and> d3 s) \<and> (nextinst s ElevatorT \<noteq> 4 \<longrightarrow> \<not> d1 s \<and> \<not> d3 s)"
  using reachable_inv [OF assms] by (simp add: sim_inv_def inv_doors_def)

lemma knuth_doors:
  "d1 (after_steps knuth_cfg 11)" "\<not> d3 (after_steps knuth_cfg 11)"
  "\<not> d1 (after_steps knuth_cfg 12)" "d3 (after_steps knuth_cfg 12)"
  "nextinst (after_steps knuth_cfg 2) ElevatorT = 8"
  by (simp_all add: run_defs)

text \<open>
  In Knuth's run \<^verbatim>\<open>d1_\<close> alone is true after eleven turns, \<^verbatim>\<open>d3_\<close> alone after twelve, and
  after two turns the elevator's next step is E8 and both are false.
\<close>

theorem doors_flags_exclusive_witness:
  "reachable knuth_cfg (after_steps knuth_cfg 11) \<and>
   d1 (after_steps knuth_cfg 11) \<and> \<not> d3 (after_steps knuth_cfg 11) \<and>
   reachable knuth_cfg (after_steps knuth_cfg 12) \<and>
   d3 (after_steps knuth_cfg 12) \<and> \<not> d1 (after_steps knuth_cfg 12) \<and>
   nextinst (after_steps knuth_cfg 2) ElevatorT = 8 \<and>
   \<not> d1 (after_steps knuth_cfg 2) \<and> \<not> d3 (after_steps knuth_cfg 2)"
  using doors_flags_exclusive [OF reachable_after_steps, of knuth_cfg 11]
    doors_flags_exclusive [OF reachable_after_steps, of knuth_cfg 12]
    doors_flags_exclusive [OF reachable_after_steps, of knuth_cfg 2]
    knuth_doors reachable_after_steps [of knuth_cfg]
  by simp

subsection \<open>C8: some task is always pending\<close>

lemma runUntil_reachable_imp:
  assumes "runUntil cfg0 dl0 s0 out0 = Some r0"
  shows "reachable cfg0 s0 \<longrightarrow> (\<exists>s'. fst r0 = Inr s' \<and> reachable cfg0 s')"
proof (rule runUntil.raw_induct
    [where P = "\<lambda>cfg dl s out r. reachable cfg s \<longrightarrow> (\<exists>s'. fst r = Inr s' \<and> reachable cfg s')",
     OF _ assms], goal_cases)
  case (1 runUntil' cfg dl s out r)
  show ?case
  proof
    assume R: "reachable cfg s"
    obtain t ts where w: "wait s = t # ts"
      using reachable_inv [OF R] by (cases "wait s") (auto simp: sim_inv_def inv_users_def)
    obtain s' where s': "step cfg s = Inr s'" "reachable cfg s'"
      using reachable_step [OF R] by blast
    show "\<exists>s'. fst r = Inr s' \<and> reachable cfg s'"
    proof (cases "dl \<le> nexttime s t")
      case True
      then show ?thesis using 1(2) R w by auto
    next
      case False
      then have "runUntil' cfg dl s' (out @ [log_of s t]) = Some r"
        using 1(2) w s'(1) by simp
      then show ?thesis using 1(1) s'(2) by blast
    qed
  qed
qed

lemma runUntil_reachable:
  assumes "runUntil cfg dl s out = Some r" "reachable cfg s"
  shows "\<exists>s'. fst r = Inr s' \<and> reachable cfg s'"
  using runUntil_reachable_imp [OF assms(1)] assms(2) by blast

text \<open>
  C8: in every state reached from the initial one some task is pending, and one of the
  pending tasks is a rider about to arrive (at U1); the next turn succeeds and again leaves
  a task pending; and whenever \<^verbatim>\<open>runUntil\<close> returns from such a state it returns a state,
  not a failed assertion, with a task pending.
\<close>

theorem pending_never_empty:
  assumes "reachable cfg s"
  shows "wait s \<noteq> [] \<and>
         (\<exists>u. UserT u \<in> set (wait s) \<and> nextinst s (UserT u) = 1) \<and>
         (\<exists>s'. step cfg s = Inr s' \<and> reachable cfg s' \<and> wait s' \<noteq> []) \<and>
         (\<forall>deadline out r. runUntil cfg deadline s out = Some r \<longrightarrow>
            (\<exists>s'. fst r = Inr s' \<and> wait s' \<noteq> []))"
proof -
  have ne: "\<exists>u. UserT u \<in> set (wait s') \<and> nextinst s' (UserT u) = 1" if "reachable cfg s'" for s'
    using reachable_inv [OF that] by (simp add: sim_inv_def inv_users_def)
  then have ne': "wait s' \<noteq> []" if "reachable cfg s'" for s'
    using that by fastforce
  have a: "\<exists>s'. step cfg s = Inr s' \<and> reachable cfg s' \<and> wait s' \<noteq> []"
    using reachable_step [OF assms] ne' by blast
  have b: "\<exists>s'. fst r = Inr s' \<and> wait s' \<noteq> []" if "runUntil cfg deadline s out = Some r"
    for deadline out r
    using runUntil_reachable [OF that assms] ne' by blast
  show ?thesis using ne [OF assms] ne' [OF assms] a b by blast
qed

lemma knuth_pending_2:
  "wait (after_steps knuth_cfg 2) = [ElevatorT, UserT 1, UserT 0]"
  "nextinst (after_steps knuth_cfg 2) (UserT 1) = 1"
  by (simp_all add: run_defs)

lemma runUntil_init_0: "runUntil knuth_cfg 0 sim_init [] = Some (Inr sim_init, [])"
  by (subst runUntil.simps) (simp add: sim_init_def members_init_def sched_def enqueue_def)

text \<open>
  After two turns of Knuth's run the elevator and two riders are pending, rider 1 about to
  arrive; the third turn succeeds; and \<^verbatim>\<open>runUntil(0)\<close> returns the initial state at once.
\<close>

theorem pending_never_empty_witness:
  "reachable knuth_cfg (after_steps knuth_cfg 2) \<and>
   wait (after_steps knuth_cfg 2) = [ElevatorT, UserT 1, UserT 0] \<and>
   nextinst (after_steps knuth_cfg 2) (UserT 1) = 1 \<and>
   step knuth_cfg (after_steps knuth_cfg 2) = Inr (after_steps knuth_cfg 3) \<and>
   wait (after_steps knuth_cfg 3) \<noteq> [] \<and>
   runUntil knuth_cfg 0 sim_init [] = Some (Inr sim_init, []) \<and> wait sim_init \<noteq> []"
proof -
  have "wait sim_init \<noteq> []"
    using pending_never_empty [OF reachable_init, of knuth_cfg] by blast
  moreover have "wait (after_steps knuth_cfg 3) \<noteq> []"
    using pending_never_empty [OF reachable_after_steps, of knuth_cfg 3] by blast
  moreover have "step knuth_cfg (after_steps knuth_cfg 2) = Inr (after_steps knuth_cfg 3)"
    by (simp add: run_defs)
  ultimately show ?thesis
    using knuth_pending_2 runUntil_init_0 reachable_after_steps [of knuth_cfg 2] by simp
qed

subsection \<open>C9: a deadline argument that is not a number\<close>














subsection \<open>C10: giving up only leaves the roster\<close>

text \<open>
  C10: when it is the turn of a rider at U4 and the rider gives up (the car is not
  available at the rider's floor, or its doors are not open with people moving), the turn
  succeeds and changes nothing but the pending sequence, which loses the rider's task, and
  the roster of the rider's floor, which loses the rider. The call buttons stay as they
  were.
\<close>

theorem giveup_only_leaves_roster:
  assumes "reachable cfg s" "wait s = UserT u # ts" "nextinst s (UserT u) = 4"
    and "\<not> elevator_is_available cfg s (user_in s u) (user_out s u) \<or> \<not> d1 s"
  shows "step cfg s =
           Inr (s\<lparr>wait := ts,
                  queue := (queue s)(user_in s u := remove1 u (queue s (user_in s u)))\<rparr>)"
proof -
  have "inv_users s" using reachable_inv [OF assms(1)] by (simp add: sim_inv_def)
  then have "distinct (queue s (user_in s u))" by (simp add: inv_users_def)
  then show ?thesis
    using assms(2,3,4)
    by (auto simp: step_def UserTask_resume_def U4_def std_erase_distinct
        elevator_is_available_def)
qed

lemma knuth_giveup:
  "wait (after_steps knuth_cfg 8) = [UserT 0, ElevatorT, UserT 4, UserT 1, UserT 2, UserT 3]"
  "nextinst (after_steps knuth_cfg 8) (UserT 0) = 4"
  "\<not> d1 (after_steps knuth_cfg 8)"
  "user_in (after_steps knuth_cfg 8) 0 = 0"
  "queue (after_steps knuth_cfg 8) 0 = [0]"
  "callup (after_steps knuth_cfg 8) 0"
  "step knuth_cfg (after_steps knuth_cfg 8) = Inr (after_steps knuth_cfg 9)"
  "floor (after_steps knuth_cfg 11) = 0"
  "d1 (after_steps knuth_cfg 11)"
  by (simp_all add: run_defs)

text \<open>
  In Knuth's run rider 0, who pressed the up button at floor 0, gives up at the ninth turn:
  the roster of floor 0 becomes empty and the up button stays pressed. After eleven turns
  the car stands at floor 0 with its doors open.
\<close>

theorem giveup_only_leaves_roster_witness:
  "nextinst (after_steps knuth_cfg 8) (UserT 0) = 4 \<and> \<not> d1 (after_steps knuth_cfg 8) \<and>
   queue (after_steps knuth_cfg 8) 0 = [0] \<and> callup (after_steps knuth_cfg 8) 0 \<and>
   queue (after_steps knuth_cfg 9) 0 = [] \<and> callup (after_steps knuth_cfg 9) 0 \<and>
   callup (after_steps knuth_cfg 9) = callup (after_steps knuth_cfg 8) \<and>
   calldown (after_steps knuth_cfg 9) = calldown (after_steps knuth_cfg 8) \<and>
   floor (after_steps knuth_cfg 11) = 0 \<and> d1 (after_steps knuth_cfg 11)"
proof -
  let ?s = "after_steps knuth_cfg 8"
  have "step knuth_cfg ?s =
      Inr (?s\<lparr>wait := [ElevatorT, UserT 4, UserT 1, UserT 2, UserT 3],
             queue := (queue ?s)(user_in ?s 0 := remove1 0 (queue ?s (user_in ?s 0)))\<rparr>)"
    using giveup_only_leaves_roster [OF reachable_after_steps knuth_giveup(1,2)]
      knuth_giveup(3) by blast
  then have "after_steps knuth_cfg 9 =
      ?s\<lparr>wait := [ElevatorT, UserT 4, UserT 1, UserT 2, UserT 3],
         queue := (queue ?s)(user_in ?s 0 := remove1 0 (queue ?s (user_in ?s 0)))\<rparr>"
    unfolding knuth_giveup(7) by (rule Inr_inject)
  then have "queue (after_steps knuth_cfg 9) 0 = []"
    "callup (after_steps knuth_cfg 9) = callup ?s" "calldown (after_steps knuth_cfg 9) = calldown ?s"
    using knuth_giveup(4,5) by simp_all
  then show ?thesis using knuth_giveup by simp
qed

end
